theory Spec2Isabelle
  imports Main "HOL-Library.Multiset" "HOL-Library.Sublist"
begin

section \<open>Data model (src/types.ts)\<close>

text \<open>
  JavaScript strings are modelled as HOL strings and the counters of a parsed file as
  natural numbers: \<open>parseDiff\<close> starts them at 0 and only increments them.
\<close>

record DiffHunk =
  oldStart :: nat
  oldLines :: nat
  newStart :: nat
  newLines :: nat
  content :: string

record DiffFile =
  path :: string
  additions :: nat
  deletions :: nat
  hunks :: "DiffHunk list"

record DiffChunk =
  files :: "DiffFile list"
  totalLines :: nat

datatype Severity = critical | warning | suggestion

datatype IssueCategory =
  security | performance | logic | style | best_practice | documentation

datatype Assessment = approve | request_changes | comment

record ReviewIssue =
  severity :: Severity
  category :: IssueCategory
  issue_file :: string
  issue_line :: int
  title :: string
  description :: string
  suggestion :: "string option"

record ReviewResult =
  summary :: string
  issues :: "ReviewIssue list"
  positives :: "string list"
  overall_assessment :: Assessment

section \<open>Chunk partitioner (src/diff.ts, splitIntoChunks)\<close>

text \<open>
  The \<open>for\<close> loop over the files, with its three mutable variables \<open>chunks\<close>,
  \<open>currentChunk\<close> and \<open>currentSize\<close> as arguments. The empty list of files is the
  code after the loop, which flushes the last chunk. The maximum is a configuration
  number and may be negative, so it is an integer.
\<close>

fun split_loop ::
  "int \<Rightarrow> DiffFile list \<Rightarrow> DiffChunk list \<Rightarrow> DiffFile list \<Rightarrow> nat \<Rightarrow> DiffChunk list"
where
  "split_loop maxChunkSize [] chunks currentChunk currentSize =
     (if length currentChunk > 0
      then chunks @ [\<lparr>files = currentChunk, totalLines = currentSize\<rparr>]
      else chunks)"
| "split_loop maxChunkSize (f # rest) chunks currentChunk currentSize =
     (let fileSize = additions f + deletions f in
      if int fileSize > maxChunkSize then
        (if length currentChunk > 0
         then split_loop maxChunkSize rest
                (chunks @ [\<lparr>files = currentChunk, totalLines = currentSize\<rparr>]
                        @ [\<lparr>files = [f], totalLines = fileSize\<rparr>]) [] 0
         else split_loop maxChunkSize rest
                (chunks @ [\<lparr>files = [f], totalLines = fileSize\<rparr>])
                currentChunk currentSize)
      else if int (currentSize + fileSize) > maxChunkSize \<and> length currentChunk > 0
      then split_loop maxChunkSize rest
             (chunks @ [\<lparr>files = currentChunk, totalLines = currentSize\<rparr>])
             [f] (0 + fileSize)
      else split_loop maxChunkSize rest chunks (currentChunk @ [f]) (currentSize + fileSize))"

definition splitIntoChunks :: "DiffFile list \<Rightarrow> int \<Rightarrow> DiffChunk list" where
  "splitIntoChunks fs maxChunkSize = split_loop maxChunkSize fs [] [] 0"

section \<open>File limiter (src/diff.ts, limitFiles)\<close>

text \<open>
  \<open>Array.prototype.slice(0, end)\<close>: a negative \<open>end\<close> counts from the end of the
  array, and the result is clamped to the array.
\<close>

definition slice0 :: "'a list \<Rightarrow> int \<Rightarrow> 'a list" where
  "slice0 xs e =
     (let len = int (length xs);
          final = (if e < 0 then max (len + e) 0 else min e len)
      in take (nat final) xs)"

text \<open>
  \<open>Array.prototype.sort\<close> is stable; with the comparator
  \<open>(a, b) => size b - size a\<close> it sorts by decreasing size, which is the stable sort on
  the key \<open>- size\<close>.
\<close>

definition sortBySize :: "DiffFile list \<Rightarrow> DiffFile list" where
  "sortBySize fs = sort_key (\<lambda>f. - int (additions f + deletions f)) fs"

definition limitFiles :: "DiffFile list \<Rightarrow> int \<Rightarrow> DiffFile list" where
  "limitFiles fs maxFiles =
     (if int (length fs) \<le> maxFiles then fs else slice0 (sortBySize fs) maxFiles)"

section \<open>Result merger (src/review.ts, mergeReviewResults)\<close>

text \<open>\<open>Array.prototype.join\<close>.\<close>

fun join :: "string \<Rightarrow> string list \<Rightarrow> string" where
  "join sep [] = []"
| "join sep [x] = x"
| "join sep (x # y # ys) = x @ sep @ join sep (y # ys)"

text \<open>\<open>[...new Set(xs)]\<close>: the elements in the order of their first insertion.\<close>

definition setOrder :: "'a list \<Rightarrow> 'a list" where
  "setOrder xs = foldl (\<lambda>acc x. if x \<in> set acc then acc else acc @ [x]) [] xs"

text \<open>
  The second loop of the merger: \<open>break\<close> at the first \<open>request_changes\<close>, an upgrade
  to \<open>comment\<close> otherwise.
\<close>

fun assess_loop :: "ReviewResult list \<Rightarrow> Assessment \<Rightarrow> Assessment" where
  "assess_loop [] acc = acc"
| "assess_loop (r # rs) acc =
     (if overall_assessment r = request_changes then request_changes
      else if overall_assessment r = comment then assess_loop rs comment
      else assess_loop rs acc)"

definition mergeReviewResults :: "ReviewResult list \<Rightarrow> ReviewResult" where
  "mergeReviewResults results =
     (case results of
        [] \<Rightarrow> \<lparr>summary = ''No files to review'', issues = [], positives = [],
               overall_assessment = approve\<rparr>
      | [r] \<Rightarrow> r
      | _ \<Rightarrow> \<lparr>summary = join '' '' (map summary results),
               issues = concat (map issues results),
               positives = setOrder (concat (map positives results)),
               overall_assessment = assess_loop results approve\<rparr>)"

section \<open>Unified-diff parser (src/diff.ts, parseDiff)\<close>

subsection \<open>String operations of the host language\<close>

text \<open>\<open>String.prototype.startsWith\<close>.\<close>

definition startsWith :: "string \<Rightarrow> string \<Rightarrow> bool" where
  "startsWith s p = prefix p s"

text \<open>
  \<open>String.prototype.split('\n')\<close>: the text between the line feeds; the empty
  string gives one empty line. The second case of the inner \<open>case\<close> cannot occur, as
  the result is never empty.
\<close>

fun splitLines :: "string \<Rightarrow> string list" where
  "splitLines [] = [[]]"
| "splitLines (c # cs) =
     (if c = CHR 0x0A then [] # splitLines cs
      else (case splitLines cs of l # ls \<Rightarrow> (c # l) # ls | [] \<Rightarrow> [[c]]))"

text \<open>
  The characters that \<open>.\<close> of a regular expression does not match. Of the four line
  terminators of the language, line feed and carriage return are characters of the
  model; U+2028 and U+2029 are outside it.
\<close>

definition lineTerminator :: "char \<Rightarrow> bool" where
  "lineTerminator c \<longleftrightarrow> c = CHR 0x0A \<or> c = CHR 0x0D"

definition isDigit :: "char \<Rightarrow> bool" where
  "isDigit c \<longleftrightarrow> c \<in> set ''0123456789''"

text \<open>
  \<open>parseInt(s, 10)\<close> on a non-empty string of digits, as an unbounded natural number
  (the source's double loses precision above \<open>2^53\<close>).
\<close>

definition parseInt10 :: "string \<Rightarrow> nat" where
  "parseInt10 s = foldl (\<lambda>n c. 10 * n + (of_char c - 48)) 0 s"

subsection \<open>The two header patterns\<close>

text \<open>
  \<open>afterLast sep s\<close> is the text after the last occurrence of \<open>sep\<close> in \<open>s\<close>, if
  there is one.
\<close>

fun afterLast :: "string \<Rightarrow> string \<Rightarrow> string option" where
  "afterLast sep [] = (if sep = [] then Some [] else None)"
| "afterLast sep (c # cs) =
     (case afterLast sep cs of
        Some r \<Rightarrow> Some r
      | None \<Rightarrow> if prefix sep (c # cs) then Some (drop (length sep) (c # cs)) else None)"

text \<open>
  \<open>line.match(/diff --git a\/(.*) b\/(.*)/)\<close>, second group. At a given start the
  pattern needs the literal prefix; the two greedy groups stay before the first line
  terminator, so the first one ends at the last \<open>" b/"\<close> there and the second one is
  what follows it. The pattern is not anchored: the leftmost start that matches wins.
\<close>

definition matchFileHeaderAt :: "string \<Rightarrow> string option" where
  "matchFileHeaderAt s =
     (if prefix ''diff --git a/'' s
      then afterLast '' b/'' (takeWhile (\<lambda>c. \<not> lineTerminator c) (drop 13 s))
      else None)"

fun matchFileHeader :: "string \<Rightarrow> string option" where
  "matchFileHeader [] = None"
| "matchFileHeader (c # cs) =
     (case matchFileHeaderAt (c # cs) of
        Some p \<Rightarrow> Some p
      | None \<Rightarrow> matchFileHeader cs)"

text \<open>
  \<open>(\d+)(?:,(\d+))?\<close> at the start of a string: the digits, the optional second
  number and the rest. Whatever follows in the pattern starts with a space, so taking
  fewer digits or skipping a group that matches can never help and the greedy choice
  is the only one.
\<close>

definition matchNumbers :: "string \<Rightarrow> (string \<times> string option \<times> string) option" where
  "matchNumbers s =
     (let d = takeWhile isDigit s; r = dropWhile isDigit s in
      if d = [] then None
      else (case r of
              c # r' \<Rightarrow>
                if c = CHR '','' \<and> takeWhile isDigit r' \<noteq> []
                then Some (d, Some (takeWhile isDigit r'), dropWhile isDigit r')
                else Some (d, None, r)
            | [] \<Rightarrow> Some (d, None, r)))"

text \<open>
  \<open>line.match(/@@ -(\d+)(?:,(\d+))? \+(\d+)(?:,(\d+))? @@/)\<close> and the hunk object
  built from the groups, \<open>match[2] || '1'\<close> and \<open>match[4] || '1'\<close> included. The
  pattern is not anchored either.
\<close>

definition matchHunkHeaderAt :: "string \<Rightarrow> DiffHunk option" where
  "matchHunkHeaderAt s =
     (if prefix ''@@ -'' s then
        (case matchNumbers (drop 4 s) of
           None \<Rightarrow> None
         | Some (m1, m2, r1) \<Rightarrow>
             if prefix '' +'' r1 then
               (case matchNumbers (drop 2 r1) of
                  None \<Rightarrow> None
                | Some (m3, m4, r2) \<Rightarrow>
                    if prefix '' @@'' r2
                    then Some \<lparr>oldStart = parseInt10 m1,
                               oldLines = parseInt10 (case m2 of Some d \<Rightarrow> d | None \<Rightarrow> ''1''),
                               newStart = parseInt10 m3,
                               newLines = parseInt10 (case m4 of Some d \<Rightarrow> d | None \<Rightarrow> ''1''),
                               content = ''''\<rparr>
                    else None)
             else None)
      else None)"

fun matchHunkHeader :: "string \<Rightarrow> DiffHunk option" where
  "matchHunkHeader [] = None"
| "matchHunkHeader (c # cs) =
     (case matchHunkHeaderAt (c # cs) of
        Some h \<Rightarrow> Some h
      | None \<Rightarrow> matchHunkHeader cs)"

subsection \<open>Line classes\<close>

definition isFileHeader :: "string \<Rightarrow> bool" where
  "isFileHeader l = startsWith l ''diff --git''"

definition isMetadata :: "string \<Rightarrow> bool" where
  "isMetadata l \<longleftrightarrow>
     startsWith l ''index '' \<or>
     startsWith l ''---'' \<or>
     startsWith l ''+++'' \<or>
     startsWith l ''new file'' \<or>
     startsWith l ''deleted file'' \<or>
     startsWith l ''similarity index'' \<or>
     startsWith l ''rename from'' \<or>
     startsWith l ''rename to'' \<or>
     startsWith l ''Binary files''"

definition isHunkHeader :: "string \<Rightarrow> bool" where
  "isHunkHeader l = startsWith l ''@@''"

definition isAddition :: "string \<Rightarrow> bool" where
  "isAddition l \<longleftrightarrow> startsWith l ''+'' \<and> \<not> startsWith l ''+++''"

definition isDeletion :: "string \<Rightarrow> bool" where
  "isDeletion l \<longleftrightarrow> startsWith l ''-'' \<and> \<not> startsWith l ''---''"

subsection \<open>The parser's state\<close>

text \<open>
  The hunk objects live in a store, a list indexed by address, and a file under
  construction holds the addresses of its hunks: the source keeps the variable
  \<open>currentHunk\<close> pointing at an object that it has already pushed into
  \<open>currentFile.hunks\<close>, and a later assignment to \<open>currentHunk.content\<close> is seen
  through every such entry.
\<close>

record FileObj =
  fo_path :: string
  fo_additions :: nat
  fo_deletions :: nat
  fo_hunks :: "nat list"

record ParseState =
  ps_files :: "FileObj list"
  currentFile :: "FileObj option"
  currentHunk :: "nat option"
  hunkContent :: "string list"
  store :: "DiffHunk list"

definition initialState :: ParseState where
  "initialState =
     \<lparr>ps_files = [], currentFile = None, currentHunk = None, hunkContent = [], store = []\<rparr>"

text \<open>
  \<open>currentHunk.content = hunkContent.join('\n'); currentFile.hunks.push(currentHunk)\<close>,
  done when both variables are set. It occurs three times in the source: at a file
  header, at a hunk header and after the loop.
\<close>

definition saveHunk :: "ParseState \<Rightarrow> ParseState" where
  "saveHunk st =
     (case currentFile st of
        None \<Rightarrow> st
      | Some f \<Rightarrow>
          (case currentHunk st of
             None \<Rightarrow> st
           | Some h \<Rightarrow>
               st\<lparr>store := (store st)[h := (store st ! h)\<lparr>content := join [CHR 0x0A] (hunkContent st)\<rparr>],
                  currentFile := Some (f\<lparr>fo_hunks := fo_hunks f @ [h]\<rparr>)\<rparr>))"

text \<open>\<open>files.push(currentFile)\<close> when a file is open.\<close>

definition pushFile :: "ParseState \<Rightarrow> FileObj list" where
  "pushFile st =
     (case currentFile st of None \<Rightarrow> ps_files st | Some f \<Rightarrow> ps_files st @ [f])"

text \<open>One iteration of the loop over the lines.\<close>

definition parseLine :: "ParseState \<Rightarrow> string \<Rightarrow> ParseState" where
  "parseLine st l =
     (if startsWith l ''diff --git'' then
        (let st1 = saveHunk st;
             filePath = (case matchFileHeader l of Some p \<Rightarrow> p | None \<Rightarrow> '''')
         in st1\<lparr>ps_files := pushFile st1,
                currentFile := Some \<lparr>fo_path = filePath, fo_additions = 0,
                                     fo_deletions = 0, fo_hunks = []\<rparr>,
                currentHunk := None,
                hunkContent := []\<rparr>)
      else if isMetadata l then st
      else if startsWith l ''@@'' then
        (let st1 = saveHunk st;
             st2 = (case matchHunkHeader l of
                      Some h \<Rightarrow> st1\<lparr>store := store st1 @ [h],
                                     currentHunk := Some (length (store st1))\<rparr>
                    | None \<Rightarrow> st1)
         in st2\<lparr>hunkContent := [l]\<rparr>)
      else
        (case currentHunk st of
           None \<Rightarrow> st
         | Some h \<Rightarrow>
             (let st1 = st\<lparr>hunkContent := hunkContent st @ [l]\<rparr> in
              if startsWith l ''+'' \<and> \<not> startsWith l ''+++'' then
                (case currentFile st1 of
                   Some f \<Rightarrow> st1\<lparr>currentFile := Some (f\<lparr>fo_additions := fo_additions f + 1\<rparr>)\<rparr>
                 | None \<Rightarrow> st1)
              else if startsWith l ''-'' \<and> \<not> startsWith l ''---'' then
                (case currentFile st1 of
                   Some f \<Rightarrow> st1\<lparr>currentFile := Some (f\<lparr>fo_deletions := fo_deletions f + 1\<rparr>)\<rparr>
                 | None \<Rightarrow> st1)
              else st1)))"

text \<open>The returned array, with every hunk address read in the final store.\<close>

definition resolveFile :: "DiffHunk list \<Rightarrow> FileObj \<Rightarrow> DiffFile" where
  "resolveFile hp f =
     \<lparr>path = fo_path f, additions = fo_additions f, deletions = fo_deletions f,
      hunks = map (\<lambda>r. hp ! r) (fo_hunks f)\<rparr>"

definition finish :: "ParseState \<Rightarrow> DiffFile list" where
  "finish st = (let st1 = saveHunk st in map (resolveFile (store st1)) (pushFile st1))"

definition parseDiff :: "string \<Rightarrow> DiffFile list" where
  "parseDiff diffContent = finish (foldl parseLine initialState (splitLines diffContent))"

subsection \<open>Which lines belong to which hunk\<close>

text \<open>
  \<open>segments P xs\<close> cuts \<open>xs\<close> before every element that satisfies \<open>P\<close> and drops
  what comes before the first such element: each segment starts with an element
  satisfying \<open>P\<close> and runs up to the next one.
\<close>

function segments :: "('a \<Rightarrow> bool) \<Rightarrow> 'a list \<Rightarrow> 'a list list" where
  "segments P [] = []"
| "segments P (x # xs) =
     (if P x then (x # takeWhile (\<lambda>y. \<not> P y) xs) # segments P (dropWhile (\<lambda>y. \<not> P y) xs)
      else segments P xs)"
  by pat_completeness auto
termination
  by (relation "measure (\<lambda>(P, xs). length xs)")
     (auto simp: length_dropWhile_le less_Suc_eq_le)

text \<open>
  The hunks of a diff, file by file, as lists of lines: the metadata lines put aside,
  a file is what a \<open>diff --git\<close> line opens, and within the lines after that header a
  hunk is what a line starting with \<open>@@\<close> opens. Lines before the first file and
  lines of a file before its first hunk belong to no hunk.
\<close>

definition hunkSections :: "string list \<Rightarrow> string list list list" where
  "hunkSections ls =
     map (\<lambda>sec. segments isHunkHeader (tl sec))
         (segments isFileHeader (filter (\<lambda>l. \<not> isMetadata l) ls))"

text \<open>Every line that starts with \<open>@@\<close> has the shape of a hunk header.\<close>

definition hunkHeadersWellFormed :: "string list \<Rightarrow> bool" where
  "hunkHeadersWellFormed ls \<longleftrightarrow> (\<forall>l \<in> set ls. isHunkHeader l \<longrightarrow> matchHunkHeader l \<noteq> None)"

subsection \<open>A store-free view of the parser, for the proofs\<close>

text \<open>
  A file is seen as its two counters and the line lists of its hunks. The step below
  is the loop body on inputs whose hunk headers are all well formed, where no hunk
  object is ever pushed twice; \<open>parseLine\<close> is shown to follow it on such inputs.
\<close>

type_synonym fileView = "nat \<times> nat \<times> string list list"

type_synonym parseView = "fileView list \<times> fileView option \<times> bool \<times> string list"

definition closeHunk :: "bool \<Rightarrow> string list \<Rightarrow> fileView \<Rightarrow> fileView" where
  "closeHunk opn acc fv =
     (case fv of (a, d, hs) \<Rightarrow> (a, d, if opn then hs @ [acc] else hs))"

definition bumpCounters :: "string \<Rightarrow> fileView \<Rightarrow> fileView" where
  "bumpCounters l fv =
     (case fv of (a, d, hs) \<Rightarrow>
        if isAddition l then (a + 1, d, hs)
        else if isDeletion l then (a, d + 1, hs)
        else (a, d, hs))"

definition closeFile :: "parseView \<Rightarrow> fileView list" where
  "closeFile v =
     (case v of (closed, cur, opn, acc) \<Rightarrow>
        (case cur of None \<Rightarrow> closed | Some fv \<Rightarrow> closed @ [closeHunk opn acc fv]))"

definition viewLine :: "parseView \<Rightarrow> string \<Rightarrow> parseView" where
  "viewLine v l =
     (case v of (closed, cur, opn, acc) \<Rightarrow>
        if isFileHeader l then (closeFile v, Some (0, 0, []), False, [])
        else if isMetadata l then v
        else if isHunkHeader l then (closed, map_option (closeHunk opn acc) cur, True, [l])
        else if opn then (closed, map_option (bumpCounters l) cur, True, acc @ [l])
        else v)"

definition joinView :: "fileView \<Rightarrow> nat \<times> nat \<times> string list" where
  "joinView fv = (case fv of (a, d, hs) \<Rightarrow> (a, d, map (join [CHR 0x0A]) hs))"

definition fileObjView :: "DiffHunk list \<Rightarrow> FileObj \<Rightarrow> nat \<times> nat \<times> string list" where
  "fileObjView hp f =
     (fo_additions f, fo_deletions f, map (\<lambda>r. content (hp ! r)) (fo_hunks f))"

definition diffFileView :: "DiffFile \<Rightarrow> nat \<times> nat \<times> string list" where
  "diffFileView f = (additions f, deletions f, map content (hunks f))"

text \<open>
  The addresses held by a file are allocated and are not the address of the hunk that
  is still open.
\<close>

definition refsOk :: "ParseState \<Rightarrow> FileObj \<Rightarrow> bool" where
  "refsOk st f \<longleftrightarrow>
     (\<forall>r \<in> set (fo_hunks f). r < length (store st) \<and> currentHunk st \<noteq> Some r)"

definition stateOk :: "ParseState \<Rightarrow> bool" where
  "stateOk st \<longleftrightarrow>
     (\<forall>f \<in> set (ps_files st). refsOk st f) \<and>
     (\<forall>f. currentFile st = Some f \<longrightarrow> refsOk st f) \<and>
     (\<forall>h. currentHunk st = Some h \<longrightarrow> h < length (store st))"

definition viewOf :: "ParseState \<Rightarrow> parseView \<Rightarrow> bool" where
  "viewOf st v \<longleftrightarrow>
     (case v of (closed, cur, opn, acc) \<Rightarrow>
        stateOk st \<and>
        map (fileObjView (store st)) (ps_files st) = map joinView closed \<and>
        map_option (fileObjView (store st)) (currentFile st) = map_option joinView cur \<and>
        (currentHunk st \<noteq> None) = opn \<and>
        hunkContent st = acc)"

text \<open>
  The lines of the file that is open when \<open>ls\<close> is read, and the hunks they add to it
  when a hunk with the lines \<open>acc\<close> is open (\<open>opn\<close>) or none is.
\<close>

definition fileBody :: "string list \<Rightarrow> string list" where
  "fileBody ls = takeWhile (\<lambda>l. \<not> isFileHeader l) (filter (\<lambda>l. \<not> isMetadata l) ls)"

definition openPart :: "bool \<Rightarrow> string list \<Rightarrow> string list \<Rightarrow> string list list" where
  "openPart opn acc body =
     (if opn then [acc @ takeWhile (\<lambda>l. \<not> isHunkHeader l) body] else []) @
     segments isHunkHeader (dropWhile (\<lambda>l. \<not> isHunkHeader l) body)"

text \<open>The counters of a file view count the marked lines of its hunks and of \<open>extra\<close>.\<close>

definition countsOk :: "string list \<Rightarrow> fileView \<Rightarrow> bool" where
  "countsOk extra fv =
     (case fv of (a, d, hs) \<Rightarrow>
        a = length (filter isAddition (concat hs @ extra)) \<and>
        d = length (filter isDeletion (concat hs @ extra)))"

definition viewOk :: "parseView \<Rightarrow> bool" where
  "viewOk v =
     (case v of (closed, cur, opn, acc) \<Rightarrow>
        (\<forall>fv \<in> set closed. countsOk [] fv) \<and>
        (\<forall>fv. cur = Some fv \<longrightarrow> countsOk (if opn then acc else []) fv))"

definition hunksOf :: "fileView \<Rightarrow> string list list" where
  "hunksOf fv = snd (snd fv)"

section \<open>File filter (src/config.ts, shouldIgnoreFile and matchPattern; src/diff.ts, filterFiles)\<close>

subsection \<open>From the glob pattern to the source of a regular expression\<close>

text \<open>
  \<open>s.replace(/needle/g, repl)\<close> for a needle without metacharacters and a replacement
  without \<open>$\<close>: the occurrences are replaced from left to right, and the search goes
  on after each replaced occurrence.
\<close>

function replaceAll :: "string \<Rightarrow> string \<Rightarrow> string \<Rightarrow> string" where
  "replaceAll needle repl [] = []"
| "replaceAll needle repl (c # cs) =
     (if needle \<noteq> [] \<and> prefix needle (c # cs)
      then repl @ replaceAll needle repl (drop (length needle - 1) cs)
      else c # replaceAll needle repl cs)"
  by pat_completeness auto
termination
  by (relation "measure (\<lambda>(needle, repl, s). length s)") auto

text \<open>
  The text handed to \<open>new RegExp\<close>: the four replacements in the order of the source,
  the optional group put in front of a pattern that starts with neither \<open>**\<close> nor
  \<open>/\<close>, and the two anchors.
\<close>

definition regexSource :: "string \<Rightarrow> string" where
  "regexSource pattern =
     (let regexPattern =
            replaceAll ''{{GLOBSTAR}}'' ''.*''
              (replaceAll ''*'' ''[^/]*''
                (replaceAll ''**'' ''{{GLOBSTAR}}''
                  (replaceAll ''.'' [CHR 0x5C, CHR ''.''] pattern)));
          regexPattern' =
            (if \<not> startsWith pattern ''**'' \<and> \<not> startsWith pattern ''/''
             then ''(^|.*/)?'' @ regexPattern
             else regexPattern)
      in ''^'' @ regexPattern' @ ''$'')"

subsection \<open>The regular expressions that the model covers\<close>

text \<open>
  The items that the replacements above produce, and \<open>$\<close>: a literal character
  (\<open>\.\<close> for the dot), \<open>.*\<close>, \<open>[^/]*\<close> and the end-of-input assertion. A source
  with any other metacharacter of the regular-expression syntax is outside the model,
  and its compilation is \<open>None\<close>.
\<close>

datatype reItem = Lit char | AnyStar | SegStar | EndOfInput

definition regexMeta :: "char \<Rightarrow> bool" where
  "regexMeta c \<longleftrightarrow> c \<in> set ([CHR 0x5C] @ ''^$.*+?()[]{}|'')"

fun parseItems :: "string \<Rightarrow> reItem list option" where
  "parseItems [] = Some []"
| "parseItems (c # cs) =
     (if c = CHR 0x5C then
        (case cs of
           [] \<Rightarrow> None
         | d # ds \<Rightarrow> if d = CHR ''.'' then map_option ((#) (Lit d)) (parseItems ds) else None)
      else if c = CHR ''.'' then
        (case cs of
           [] \<Rightarrow> None
         | d # ds \<Rightarrow> if d = CHR ''*'' then map_option ((#) AnyStar) (parseItems ds) else None)
      else if prefix ''[^/]*'' (c # cs) then
        map_option ((#) SegStar) (parseItems (drop 4 cs))
      else if c = CHR ''$'' then map_option ((#) EndOfInput) (parseItems cs)
      else if regexMeta c then None
      else map_option ((#) (Lit c)) (parseItems cs))"

text \<open>
  A compiled expression: whether the optional group \<open>(^|.*/)?\<close> stands in front, and
  the items between the leading \<open>^\<close> and the trailing \<open>$\<close>.
\<close>

datatype regex = Regex bool "reItem list"

definition compileRegex :: "string \<Rightarrow> regex option" where
  "compileRegex s =
     (case s of
        [] \<Rightarrow> None
      | c # r \<Rightarrow>
          if c = CHR ''^'' \<and> r \<noteq> [] \<and> last r = CHR ''$'' then
            (let body = butlast r in
             if prefix ''(^|.*/)?'' body
             then map_option (Regex True) (parseItems (drop 8 body))
             else map_option (Regex False) (parseItems body))
          else None)"

text \<open>
  Whether the items match all of a string: the expression is anchored at both ends,
  so \<open>regex.test\<close> asks for exactly that. \<open>.\<close> matches every character but a line
  terminator, \<open>[^/]\<close> every character but the slash.
\<close>

fun matchItems :: "reItem list \<Rightarrow> string \<Rightarrow> bool" where
  "matchItems [] s = (s = [])"
| "matchItems (Lit c # items) s =
     (case s of [] \<Rightarrow> False | d # ds \<Rightarrow> d = c \<and> matchItems items ds)"
| "matchItems (AnyStar # items) s =
     (matchItems items s \<or>
      (case s of [] \<Rightarrow> False
       | d # ds \<Rightarrow> \<not> lineTerminator d \<and> matchItems (AnyStar # items) ds))"
| "matchItems (SegStar # items) s =
     (matchItems items s \<or>
      (case s of [] \<Rightarrow> False
       | d # ds \<Rightarrow> d \<noteq> CHR ''/'' \<and> matchItems (SegStar # items) ds))"
| "matchItems (EndOfInput # items) s = (s = [] \<and> matchItems items s)"

text \<open>
  \<open>regex.test(filePath)\<close>. The optional group is skipped, or matches the empty string
  at the start, or matches \<open>.*/\<close>.
\<close>

fun regexTest :: "regex \<Rightarrow> string \<Rightarrow> bool" where
  "regexTest (Regex grp items) s =
     (if grp then matchItems items s \<or> matchItems (AnyStar # Lit (CHR ''/'') # items) s
      else matchItems items s)"

definition matchPattern :: "string \<Rightarrow> string \<Rightarrow> bool option" where
  "matchPattern filePath pattern =
     map_option (\<lambda>re. regexTest re filePath) (compileRegex (regexSource pattern))"

subsection \<open>The filter\<close>

text \<open>The two fields of the user configuration that the filter reads, both optional.\<close>

record UserConfig =
  ignore :: "string list option"
  include_only :: "string list option"

text \<open>
  \<open>patterns.some(pattern => matchPattern(filePath, pattern))\<close>: the patterns are tried
  in order up to the first match.
\<close>

fun somePattern :: "string \<Rightarrow> string list \<Rightarrow> bool option" where
  "somePattern filePath [] = Some False"
| "somePattern filePath (p # ps) =
     (case matchPattern filePath p of
        None \<Rightarrow> None
      | Some m \<Rightarrow> if m then Some True else somePattern filePath ps)"

definition shouldIgnoreFile :: "string \<Rightarrow> UserConfig \<Rightarrow> bool option" where
  "shouldIgnoreFile filePath config =
     (let ign = (case ignore config of None \<Rightarrow> [] | Some ps \<Rightarrow> ps) in
      case include_only config of
        None \<Rightarrow> somePattern filePath ign
      | Some inc \<Rightarrow>
          if length inc > 0 then
            (case somePattern filePath inc of
               None \<Rightarrow> None
             | Some included \<Rightarrow> if \<not> included then Some True else somePattern filePath ign)
          else somePattern filePath ign)"

fun filterFiles :: "DiffFile list \<Rightarrow> UserConfig \<Rightarrow> DiffFile list option" where
  "filterFiles [] config = Some []"
| "filterFiles (f # fs) config =
     (case shouldIgnoreFile (path f) config of
        None \<Rightarrow> None
      | Some ign \<Rightarrow>
          (case filterFiles fs config of
             None \<Rightarrow> None
           | Some kept \<Rightarrow> Some (if ign then kept else f # kept)))"

subsection \<open>Glob matching as the specification words it\<close>

text \<open>
  A pattern read from left to right: \<open>**\<close>, then \<open>*\<close>, then any other character.
\<close>

datatype globToken = GlobStar | Star | Char char

fun globTokens :: "string \<Rightarrow> globToken list" where
  "globTokens [] = []"
| "globTokens [c] = (if c = CHR ''*'' then [Star] else [Char c])"
| "globTokens (c # d # cs) =
     (if c = CHR ''*'' then
        (if d = CHR ''*'' then GlobStar # globTokens cs else Star # globTokens (d # cs))
      else Char c # globTokens (d # cs))"

text \<open>
  \<open>**\<close> stands for any text, across separators; \<open>*\<close> for any text within one
  segment; every other character, the dot included, for itself.
\<close>

fun tokenMatches :: "globToken \<Rightarrow> string \<Rightarrow> bool" where
  "tokenMatches GlobStar w = True"
| "tokenMatches Star w = (CHR ''/'' \<notin> set w)"
| "tokenMatches (Char c) w = (w = [c])"

definition globMatches :: "globToken list \<Rightarrow> string \<Rightarrow> bool" where
  "globMatches ts s \<longleftrightarrow> (\<exists>ws. list_all2 tokenMatches ts ws \<and> concat ws = s)"

text \<open>
  The whole path is matched. A pattern that starts with neither \<open>**\<close> nor \<open>/\<close> may
  start at any segment boundary of the path: at its start or after a slash.
\<close>

definition globAccepts :: "string \<Rightarrow> string \<Rightarrow> bool" where
  "globAccepts pattern filePath \<longleftrightarrow>
     (if startsWith pattern ''**'' \<or> startsWith pattern ''/''
      then globMatches (globTokens pattern) filePath
      else (\<exists>pre rest. filePath = pre @ rest \<and> (pre = [] \<or> last pre = CHR ''/'') \<and>
              globMatches (globTokens pattern) rest))"

text \<open>The drop policy of the filter under that reading of the patterns.\<close>

definition globDropped :: "UserConfig \<Rightarrow> string \<Rightarrow> bool" where
  "globDropped config filePath \<longleftrightarrow>
     (let ign = (case ignore config of None \<Rightarrow> [] | Some ps \<Rightarrow> ps);
          inc = (case include_only config of None \<Rightarrow> [] | Some ps \<Rightarrow> ps)
      in (inc \<noteq> [] \<and> \<not> (\<exists>p \<in> set inc. globAccepts p filePath)) \<or>
         (\<exists>p \<in> set ign. globAccepts p filePath))"

text \<open>
  The patterns of the theorem below: no metacharacter of the regular-expression syntax
  other than the dot and the star.
\<close>

definition plainGlob :: "string \<Rightarrow> bool" where
  "plainGlob pattern \<longleftrightarrow> (\<forall>c \<in> set pattern. c \<notin> set ([CHR 0x5C] @ ''^$+?()[]{}|''))"

definition configPatterns :: "UserConfig \<Rightarrow> string list" where
  "configPatterns config =
     (case ignore config of None \<Rightarrow> [] | Some ps \<Rightarrow> ps) @
     (case include_only config of None \<Rightarrow> [] | Some ps \<Rightarrow> ps)"

subsection \<open>The stages of the replacement, token by token\<close>

text \<open>
  A token list written back as text, with a chosen text for \<open>**\<close>, for \<open>*\<close> and for
  the dot: the pattern itself and the result of each of the four replacements are such
  texts.
\<close>

definition renderToken :: "string \<Rightarrow> string \<Rightarrow> string \<Rightarrow> globToken \<Rightarrow> string" where
  "renderToken gs st dot t =
     (case t of GlobStar \<Rightarrow> gs | Star \<Rightarrow> st | Char c \<Rightarrow> if c = CHR ''.'' then dot else [c])"

definition render :: "string \<Rightarrow> string \<Rightarrow> string \<Rightarrow> globToken list \<Rightarrow> string" where
  "render gs st dot ts = concat (map (renderToken gs st dot) ts)"

text \<open>
  The token lists of plain patterns: a character token is neither a star nor another
  metacharacter, and a single star is not followed by a star.
\<close>

fun tokensOk :: "globToken list \<Rightarrow> bool" where
  "tokensOk [] = True"
| "tokensOk (Char c # ts) =
     (c \<noteq> CHR ''*'' \<and> c \<notin> set ([CHR 0x5C] @ ''^$+?()[]{}|'') \<and> tokensOk ts)"
| "tokensOk (GlobStar # ts) = tokensOk ts"
| "tokensOk (Star # ts) =
     ((case ts of Star # _ \<Rightarrow> False | GlobStar # _ \<Rightarrow> False | _ \<Rightarrow> True) \<and> tokensOk ts)"

fun itemOf :: "globToken \<Rightarrow> reItem" where
  "itemOf GlobStar = AnyStar"
| "itemOf Star = SegStar"
| "itemOf (Char c) = Lit c"

text \<open>What an item of the compiled expression matches, for the items of a glob.\<close>

fun itemMatches :: "globToken \<Rightarrow> string \<Rightarrow> bool" where
  "itemMatches GlobStar w = (\<forall>c \<in> set w. \<not> lineTerminator c)"
| "itemMatches Star w = (CHR ''/'' \<notin> set w)"
| "itemMatches (Char c) w = (w = [c])"

section \<open>Auxiliary notions for the proofs\<close>

text \<open>
  The invariant of the chunks already emitted by the partitioner: a chunk is not empty,
  its \<open>totalLines\<close> is the sum of its files' sizes, and a chunk over the maximum
  holds a single file.
\<close>

definition chunk_ok :: "int \<Rightarrow> DiffChunk \<Rightarrow> bool" where
  "chunk_ok m c \<longleftrightarrow>
     files c \<noteq> [] \<and>
     totalLines c = sum_list (map (\<lambda>f. additions f + deletions f) (files c)) \<and>
     (int (totalLines c) > m \<longrightarrow> (\<exists>f. files c = [f]))"

section \<open>Properties of the chunk partitioner\<close>

lemma split_loop_concat:
  "concat (map files (split_loop m fs chunks cur sz)) = concat (map files chunks) @ cur @ fs"
  by (induction fs arbitrary: chunks cur sz) (auto simp: Let_def)

text \<open>
  C2. The files of the chunks, concatenated in chunk order, are the input list: no file
  is dropped, duplicated or moved.
\<close>

theorem splitIntoChunks_coverage:
  "concat (map files (splitIntoChunks fs maxChunkSize)) = fs"
  by (simp add: splitIntoChunks_def split_loop_concat)

lemma split_loop_inv:
  "\<lbrakk>\<forall>c \<in> set chunks. chunk_ok m c;
    sz = sum_list (map (\<lambda>f. additions f + deletions f) cur);
    cur \<noteq> [] \<longrightarrow> int sz \<le> m\<rbrakk>
   \<Longrightarrow> \<forall>c \<in> set (split_loop m fs chunks cur sz). chunk_ok m c"
proof (induction fs arbitrary: chunks cur sz)
  case Nil
  then show ?case by (auto simp: chunk_ok_def)
next
  case (Cons f rest)
  let ?n = "additions f + deletions f"
  consider (big_flush) "int ?n > m" "cur \<noteq> []"
    | (big) "int ?n > m" "cur = []"
    | (flush) "\<not> int ?n > m" "int (sz + ?n) > m" "cur \<noteq> []"
    | (add) "\<not> int ?n > m" "\<not> (int (sz + ?n) > m \<and> cur \<noteq> [])"
    by blast
  then show ?case
  proof cases
    case big_flush
    have "\<forall>c \<in> set (split_loop m rest
             (chunks @ [\<lparr>files = cur, totalLines = sz\<rparr>] @ [\<lparr>files = [f], totalLines = ?n\<rparr>]) [] 0).
           chunk_ok m c"
      using Cons.prems big_flush by (intro Cons.IH) (auto simp: chunk_ok_def)
    with big_flush show ?thesis by (simp add: Let_def)
  next
    case big
    have "\<forall>c \<in> set (split_loop m rest (chunks @ [\<lparr>files = [f], totalLines = ?n\<rparr>]) cur sz).
           chunk_ok m c"
      using Cons.prems big by (intro Cons.IH) (auto simp: chunk_ok_def)
    with big show ?thesis by (simp add: Let_def)
  next
    case flush
    have "\<forall>c \<in> set (split_loop m rest (chunks @ [\<lparr>files = cur, totalLines = sz\<rparr>]) [f] (0 + ?n)).
           chunk_ok m c"
      using Cons.prems flush by (intro Cons.IH) (auto simp: chunk_ok_def)
    with flush show ?thesis by (simp add: Let_def)
  next
    case add
    have "\<forall>c \<in> set (split_loop m rest chunks (cur @ [f]) (sz + ?n)). chunk_ok m c"
      using Cons.prems add by (intro Cons.IH) (auto simp: chunk_ok_def)
    with add show ?thesis by (auto simp: Let_def)
  qed
qed

lemma splitIntoChunks_ok: "c \<in> set (splitIntoChunks fs m) \<Longrightarrow> chunk_ok m c"
  unfolding splitIntoChunks_def using split_loop_inv[of "[]" m 0 "[]" fs] by simp

text \<open>
  C3. The \<open>totalLines\<close> of every chunk is the sum of the sizes of its files; a chunk
  with more than one file stays within the maximum, and a chunk over the maximum holds
  exactly one file, whose own size is over the maximum.
\<close>

theorem splitIntoChunks_size_bound:
  "\<forall>c \<in> set (splitIntoChunks fs maxChunkSize).
     totalLines c = sum_list (map (\<lambda>f. additions f + deletions f) (files c)) \<and>
     (length (files c) > 1 \<longrightarrow>
        int (sum_list (map (\<lambda>f. additions f + deletions f) (files c))) \<le> maxChunkSize) \<and>
     (int (sum_list (map (\<lambda>f. additions f + deletions f) (files c))) > maxChunkSize \<longrightarrow>
        (\<exists>f. files c = [f] \<and> int (additions f + deletions f) > maxChunkSize))"
proof
  fix c assume "c \<in> set (splitIntoChunks fs maxChunkSize)"
  then have ok: "chunk_ok maxChunkSize c" by (rule splitIntoChunks_ok)
  then have total: "totalLines c = sum_list (map (\<lambda>f. additions f + deletions f) (files c))"
    by (simp add: chunk_ok_def)
  have single: "\<exists>f. files c = [f]"
    if "int (sum_list (map (\<lambda>f. additions f + deletions f) (files c))) > maxChunkSize"
    using ok that unfolding chunk_ok_def by simp
  have many: "int (sum_list (map (\<lambda>f. additions f + deletions f) (files c))) \<le> maxChunkSize"
    if "length (files c) > 1"
  proof (rule ccontr)
    assume "\<not> int (sum_list (map (\<lambda>f. additions f + deletions f) (files c))) \<le> maxChunkSize"
    then obtain f where "files c = [f]" using single by fastforce
    with that show False by simp
  qed
  have over: "\<exists>f. files c = [f] \<and> int (additions f + deletions f) > maxChunkSize"
    if gt: "int (sum_list (map (\<lambda>f. additions f + deletions f) (files c))) > maxChunkSize"
  proof -
    from single[OF gt] obtain f where f: "files c = [f]" by blast
    with gt have "int (additions f + deletions f) > maxChunkSize" by simp
    with f show ?thesis by blast
  qed
  show "totalLines c = sum_list (map (\<lambda>f. additions f + deletions f) (files c)) \<and>
     (length (files c) > 1 \<longrightarrow>
        int (sum_list (map (\<lambda>f. additions f + deletions f) (files c))) \<le> maxChunkSize) \<and>
     (int (sum_list (map (\<lambda>f. additions f + deletions f) (files c))) > maxChunkSize \<longrightarrow>
        (\<exists>f. files c = [f] \<and> int (additions f + deletions f) > maxChunkSize))"
    using total many over by blast
qed

text \<open>
  Two small files and a large one at the maximum 100 give a chunk of two files within
  the maximum and the large file alone; three files of 80 lines at the maximum 100 give
  three chunks of 80 lines each, none of them holding two files.
\<close>

theorem splitIntoChunks_size_bound_witness:
  "(let c = \<lparr>files = [\<lparr>path = ''a.ts'', additions = 10, deletions = 5, hunks = []\<rparr>,
                       \<lparr>path = ''b.ts'', additions = 20, deletions = 10, hunks = []\<rparr>],
              totalLines = 45\<rparr>;
        d = \<lparr>files = [\<lparr>path = ''large.ts'', additions = 1000, deletions = 500, hunks = []\<rparr>],
              totalLines = 1500\<rparr>;
        cs = splitIntoChunks
               [\<lparr>path = ''a.ts'', additions = 10, deletions = 5, hunks = []\<rparr>,
                \<lparr>path = ''b.ts'', additions = 20, deletions = 10, hunks = []\<rparr>,
                \<lparr>path = ''large.ts'', additions = 1000, deletions = 500, hunks = []\<rparr>] 100
    in c \<in> set cs \<and> length (files c) > 1 \<and>
       totalLines c = sum_list (map (\<lambda>f. additions f + deletions f) (files c)) \<and>
       int (sum_list (map (\<lambda>f. additions f + deletions f) (files c))) \<le> 100 \<and>
       d \<in> set cs \<and>
       totalLines d = sum_list (map (\<lambda>f. additions f + deletions f) (files d)) \<and>
       int (sum_list (map (\<lambda>f. additions f + deletions f) (files d))) > 100 \<and>
       (\<exists>f. files d = [f] \<and> int (additions f + deletions f) > 100)) \<and>
   splitIntoChunks
     [\<lparr>path = ''x.ts'', additions = 50, deletions = 30, hunks = []\<rparr>,
      \<lparr>path = ''y.ts'', additions = 50, deletions = 30, hunks = []\<rparr>,
      \<lparr>path = ''z.ts'', additions = 50, deletions = 30, hunks = []\<rparr>] 100 =
     [\<lparr>files = [\<lparr>path = ''x.ts'', additions = 50, deletions = 30, hunks = []\<rparr>],
        totalLines = 80\<rparr>,
      \<lparr>files = [\<lparr>path = ''y.ts'', additions = 50, deletions = 30, hunks = []\<rparr>],
        totalLines = 80\<rparr>,
      \<lparr>files = [\<lparr>path = ''z.ts'', additions = 50, deletions = 30, hunks = []\<rparr>],
        totalLines = 80\<rparr>]"
  using splitIntoChunks_size_bound[of
               "[\<lparr>path = ''a.ts'', additions = 10, deletions = 5, hunks = []\<rparr>,
                \<lparr>path = ''b.ts'', additions = 20, deletions = 10, hunks = []\<rparr>,
                \<lparr>path = ''large.ts'', additions = 1000, deletions = 500, hunks = []\<rparr>]" 100]
    splitIntoChunks_size_bound[of
               "[\<lparr>path = ''x.ts'', additions = 50, deletions = 30, hunks = []\<rparr>,
                \<lparr>path = ''y.ts'', additions = 50, deletions = 30, hunks = []\<rparr>,
                \<lparr>path = ''z.ts'', additions = 50, deletions = 30, hunks = []\<rparr>]" 100]
  by (simp add: splitIntoChunks_def)

text \<open>
  C10. No chunk returned by the partitioner has an empty list of files.
\<close>

theorem splitIntoChunks_nonempty:
  "\<forall>c \<in> set (splitIntoChunks fs maxChunkSize). files c \<noteq> []"
  using splitIntoChunks_ok by (auto simp: chunk_ok_def)

theorem splitIntoChunks_nonempty_witness:
  "\<lparr>files = [\<lparr>path = ''a.ts'', additions = 10, deletions = 5, hunks = []\<rparr>],
     totalLines = 15\<rparr>
     \<in> set (splitIntoChunks [\<lparr>path = ''a.ts'', additions = 10, deletions = 5, hunks = []\<rparr>] 1000) \<and>
   files \<lparr>files = [\<lparr>path = ''a.ts'', additions = 10, deletions = 5, hunks = []\<rparr>],
     totalLines = 15\<rparr> \<noteq> []"
  using splitIntoChunks_nonempty[of
     "[\<lparr>path = ''a.ts'', additions = 10, deletions = 5, hunks = []\<rparr>]" 1000]
  by (simp add: splitIntoChunks_def)

section \<open>Properties of the file limiter\<close>

lemma length_sortBySize: "length (sortBySize fs) = length fs"
  by (simp add: sortBySize_def)

lemma limitFiles_within: "int (length fs) \<le> n \<Longrightarrow> limitFiles fs n = fs"
  by (simp add: limitFiles_def)

lemma limitFiles_over:
  "0 \<le> n \<Longrightarrow> n < int (length fs) \<Longrightarrow> limitFiles fs n = take (nat n) (sortBySize fs)"
  by (simp add: limitFiles_def slice0_def Let_def length_sortBySize min_def)

text \<open>
  C8, as amended. For a maximum that is not negative, limiting twice is limiting once.
\<close>

theorem limitFiles_idempotent:
  "0 \<le> n \<Longrightarrow> limitFiles (limitFiles fs n) n = limitFiles fs n"
proof (cases "int (length fs) \<le> n")
  case True
  then show ?thesis by (simp add: limitFiles_within)
next
  case False
  assume n: "0 \<le> n"
  with False have eq: "limitFiles fs n = take (nat n) (sortBySize fs)"
    by (simp add: limitFiles_over)
  have "int (length (take (nat n) (sortBySize fs))) \<le> n"
    using n by (simp add: length_sortBySize)
  then show ?thesis unfolding eq by (rule limitFiles_within)
qed

theorem limitFiles_idempotent_witness:
  "(0::int) \<le> 2 \<and>
   limitFiles (limitFiles
     [\<lparr>path = ''small.ts'', additions = 5, deletions = 2, hunks = []\<rparr>,
      \<lparr>path = ''large.ts'', additions = 100, deletions = 50, hunks = []\<rparr>,
      \<lparr>path = ''medium.ts'', additions = 30, deletions = 15, hunks = []\<rparr>] 2) 2 =
   limitFiles
     [\<lparr>path = ''small.ts'', additions = 5, deletions = 2, hunks = []\<rparr>,
      \<lparr>path = ''large.ts'', additions = 100, deletions = 50, hunks = []\<rparr>,
      \<lparr>path = ''medium.ts'', additions = 30, deletions = 15, hunks = []\<rparr>] 2"
  using limitFiles_idempotent[of 2
     "[\<lparr>path = ''small.ts'', additions = 5, deletions = 2, hunks = []\<rparr>,
      \<lparr>path = ''large.ts'', additions = 100, deletions = 50, hunks = []\<rparr>,
      \<lparr>path = ''medium.ts'', additions = 30, deletions = 15, hunks = []\<rparr>]"]
  by simp

text \<open>
  With a negative maximum \<open>slice\<close> counts from the end, and every further call
  drops one more file: three files and the maximum \<open>-1\<close> give two files, then one.
\<close>

theorem limitFiles_idempotent_counterexample:
  "limitFiles (limitFiles
     [\<lparr>path = ''small.ts'', additions = 5, deletions = 2, hunks = []\<rparr>,
      \<lparr>path = ''large.ts'', additions = 100, deletions = 50, hunks = []\<rparr>,
      \<lparr>path = ''medium.ts'', additions = 30, deletions = 15, hunks = []\<rparr>] (- 1)) (- 1) \<noteq>
   limitFiles
     [\<lparr>path = ''small.ts'', additions = 5, deletions = 2, hunks = []\<rparr>,
      \<lparr>path = ''large.ts'', additions = 100, deletions = 50, hunks = []\<rparr>,
      \<lparr>path = ''medium.ts'', additions = 30, deletions = 15, hunks = []\<rparr>] (- 1)"
  by (simp add: limitFiles_def slice0_def sortBySize_def)


lemma sortBySize_sorted:
  "sorted_wrt (\<ge>) (map (\<lambda>f. additions f + deletions f) (sortBySize fs))"
proof -
  have "sorted (map (\<lambda>f. - int (additions f + deletions f)) (sortBySize fs))"
    unfolding sortBySize_def by (rule sorted_sort_key)
  then have "sorted_wrt (\<lambda>x y. - int (additions x + deletions x) \<le> - int (additions y + deletions y))
           (sortBySize fs)"
    by (simp only: sorted_wrt_map)
  then have "sorted_wrt (\<lambda>x y. additions x + deletions x \<ge> additions y + deletions y)
           (sortBySize fs)"
    by (rule sorted_wrt_mono_rel[rotated]) simp
  then show ?thesis
    by (simp only: sorted_wrt_map)
qed

lemma sortBySize_stable:
  "filter (\<lambda>f. additions f + deletions f = k) (sortBySize fs) =
   filter (\<lambda>f. additions f + deletions f = k) fs"
proof -
  have "filter (\<lambda>f. - int (additions f + deletions f) = - int k) (sortBySize fs) =
        filter (\<lambda>f. - int (additions f + deletions f) = - int k) fs"
    unfolding sortBySize_def by (rule sort_key_stable)
  moreover have "(\<lambda>f. - int (additions f + deletions f) = - int k) =
                 (\<lambda>f::DiffFile. additions f + deletions f = k)"
    by (auto simp: fun_eq_iff)
  ultimately show ?thesis by simp
qed

text \<open>
  C9. For a maximum count \<open>n\<close>: a list within the count is returned as it is; a
  longer list gives exactly \<open>n\<close> files, in decreasing order of size, none of them
  smaller than a file left out, and files of equal size in their input order. The three
  files of sizes 7, 150 and 45 with the count 2 give the files of sizes 150 and 45.
\<close>

theorem limitFiles_selects_largest:
  fixes n :: nat
  shows "(length fs \<le> n \<longrightarrow> limitFiles fs (int n) = fs) \<and>
         (length fs > n \<longrightarrow>
            length (limitFiles fs (int n)) = n \<and>
            sorted_wrt (\<ge>) (map (\<lambda>f. additions f + deletions f) (limitFiles fs (int n))) \<and>
            (\<exists>rest. mset fs = mset (limitFiles fs (int n)) + mset rest \<and>
               (\<forall>x \<in> set rest. \<forall>y \<in> set (limitFiles fs (int n)).
                  additions x + deletions x \<le> additions y + deletions y)) \<and>
            (\<forall>k. prefix (filter (\<lambda>f. additions f + deletions f = k) (limitFiles fs (int n)))
                         (filter (\<lambda>f. additions f + deletions f = k) fs)))"
proof (intro conjI impI)
  assume "length fs \<le> n"
  then show "limitFiles fs (int n) = fs" by (simp add: limitFiles_within)
next
  assume gt: "n < length fs"
  then have eq: "limitFiles fs (int n) = take n (sortBySize fs)"
    using limitFiles_over[of "int n" fs] by simp
  let ?s = "sortBySize fs"
  let ?sz = "\<lambda>f. additions f + deletions f"
  show "length (limitFiles fs (int n)) = n"
    using gt by (simp add: eq length_sortBySize)
  have "sorted_wrt (\<ge>) (map ?sz ?s)"
    by (rule sortBySize_sorted)
  then have "sorted_wrt (\<ge>) (map ?sz (take n ?s @ drop n ?s))"
    by (simp only: append_take_drop_id)
  then have srt: "sorted_wrt (\<ge>) (map ?sz (take n ?s)) \<and>
      (\<forall>y \<in> set (take n ?s). \<forall>x \<in> set (drop n ?s). ?sz x \<le> ?sz y)"
    by (simp only: map_append sorted_wrt_append set_map) blast
  then show "sorted_wrt (\<ge>) (map ?sz (limitFiles fs (int n)))"
    unfolding eq by blast
  have "mset fs = mset (take n ?s) + mset (drop n ?s)"
    by (metis append_take_drop_id mset_append mset_sort sortBySize_def)
  moreover have "\<forall>x \<in> set (drop n ?s). \<forall>y \<in> set (take n ?s). ?sz x \<le> ?sz y"
    using srt by blast
  ultimately show "\<exists>rest. mset fs = mset (limitFiles fs (int n)) + mset rest \<and>
               (\<forall>x \<in> set rest. \<forall>y \<in> set (limitFiles fs (int n)). ?sz x \<le> ?sz y)"
    unfolding eq by blast
  show "\<forall>k. prefix (filter (\<lambda>f. ?sz f = k) (limitFiles fs (int n)))
                         (filter (\<lambda>f. ?sz f = k) fs)"
  proof
    fix k
    have "prefix (filter (\<lambda>f. ?sz f = k) (take n ?s)) (filter (\<lambda>f. ?sz f = k) ?s)"
      by (intro filter_mono_prefix take_is_prefix)
    then show "prefix (filter (\<lambda>f. ?sz f = k) (limitFiles fs (int n)))
                         (filter (\<lambda>f. ?sz f = k) fs)"
      by (simp add: eq sortBySize_stable)
  qed
qed

theorem limitFiles_selects_largest_witness:
  "length [\<lparr>path = ''small.ts'', additions = 5, deletions = 2, hunks = []\<rparr>,
      \<lparr>path = ''large.ts'', additions = 100, deletions = 50, hunks = []\<rparr>,
      \<lparr>path = ''medium.ts'', additions = 30, deletions = 15, hunks = []\<rparr>] > (2::nat) \<and>
   limitFiles
     [\<lparr>path = ''small.ts'', additions = 5, deletions = 2, hunks = []\<rparr>,
      \<lparr>path = ''large.ts'', additions = 100, deletions = 50, hunks = []\<rparr>,
      \<lparr>path = ''medium.ts'', additions = 30, deletions = 15, hunks = []\<rparr>] (int 2) =
     [\<lparr>path = ''large.ts'', additions = 100, deletions = 50, hunks = []\<rparr>,
      \<lparr>path = ''medium.ts'', additions = 30, deletions = 15, hunks = []\<rparr>] \<and>
   length (limitFiles
     [\<lparr>path = ''small.ts'', additions = 5, deletions = 2, hunks = []\<rparr>,
      \<lparr>path = ''large.ts'', additions = 100, deletions = 50, hunks = []\<rparr>,
      \<lparr>path = ''medium.ts'', additions = 30, deletions = 15, hunks = []\<rparr>] (int 2)) = 2 \<and>
   length [\<lparr>path = ''a.ts'', additions = 10, deletions = 5, hunks = []\<rparr>] \<le> (10::nat) \<and>
   limitFiles [\<lparr>path = ''a.ts'', additions = 10, deletions = 5, hunks = []\<rparr>] (int 10) =
     [\<lparr>path = ''a.ts'', additions = 10, deletions = 5, hunks = []\<rparr>]"
  using limitFiles_selects_largest[of
     "[\<lparr>path = ''small.ts'', additions = 5, deletions = 2, hunks = []\<rparr>,
      \<lparr>path = ''large.ts'', additions = 100, deletions = 50, hunks = []\<rparr>,
      \<lparr>path = ''medium.ts'', additions = 30, deletions = 15, hunks = []\<rparr>]" 2]
    limitFiles_selects_largest[of
     "[\<lparr>path = ''a.ts'', additions = 10, deletions = 5, hunks = []\<rparr>]" 10]
  by (simp add: limitFiles_def slice0_def sortBySize_def)

section \<open>Properties of the result merger\<close>

lemma assess_loop_eq:
  "assess_loop rs acc =
     (if \<exists>r \<in> set rs. overall_assessment r = request_changes then request_changes
      else if \<exists>r \<in> set rs. overall_assessment r = comment then comment
      else acc)"
  by (induction rs arbitrary: acc) auto

text \<open>
  C4. For a non-empty list of results the merged assessment is \<open>request_changes\<close> if
  some input carries it, otherwise \<open>comment\<close> if some input carries it, otherwise
  \<open>approve\<close>.
\<close>

theorem merge_assessment_precedence:
  "results \<noteq> [] \<Longrightarrow>
   overall_assessment (mergeReviewResults results) =
     (if \<exists>r \<in> set results. overall_assessment r = request_changes then request_changes
      else if \<exists>r \<in> set results. overall_assessment r = comment then comment
      else approve)"
proof (cases results)
  case Nil
  assume "results \<noteq> []"
  with Nil show ?thesis by simp
next
  case (Cons r rs)
  show ?thesis
  proof (cases rs)
    case Nil
    with Cons show ?thesis
      by (cases "overall_assessment r") (simp_all add: mergeReviewResults_def)
  next
    case (Cons r' rs')
    with \<open>results = r # rs\<close> have "overall_assessment (mergeReviewResults results)
        = assess_loop results approve"
      by (simp add: mergeReviewResults_def)
    then show ?thesis by (simp only: assess_loop_eq)
  qed
qed

theorem merge_assessment_precedence_witness:
  "[\<lparr>summary = ''a'', issues = [], positives = [], overall_assessment = approve\<rparr>,
    \<lparr>summary = ''b'', issues = [], positives = [], overall_assessment = request_changes\<rparr>,
    \<lparr>summary = ''c'', issues = [], positives = [], overall_assessment = comment\<rparr>] \<noteq> [] \<and>
   overall_assessment (mergeReviewResults
     [\<lparr>summary = ''a'', issues = [], positives = [], overall_assessment = approve\<rparr>,
      \<lparr>summary = ''b'', issues = [], positives = [], overall_assessment = request_changes\<rparr>,
      \<lparr>summary = ''c'', issues = [], positives = [], overall_assessment = comment\<rparr>])
     = request_changes"
  using merge_assessment_precedence[of
    "[\<lparr>summary = ''a'', issues = [], positives = [], overall_assessment = approve\<rparr>,
      \<lparr>summary = ''b'', issues = [], positives = [], overall_assessment = request_changes\<rparr>,
      \<lparr>summary = ''c'', issues = [], positives = [], overall_assessment = comment\<rparr>]"]
  by simp

section \<open>Properties of the parser\<close>

subsection \<open>The parser follows its store-free view\<close>

lemma fileObjView_update:
  "h \<notin> set (fo_hunks g) \<Longrightarrow> fileObjView (hp[h := x]) g = fileObjView hp g"
proof -
  assume "h \<notin> set (fo_hunks g)"
  then have "\<forall>r \<in> set (fo_hunks g). hp[h := x] ! r = hp ! r"
    by (metis nth_list_update_neq)
  then show ?thesis by (simp add: fileObjView_def)
qed

lemma fileObjView_append:
  "\<forall>r \<in> set (fo_hunks g). r < length hp \<Longrightarrow> fileObjView (hp @ [x]) g = fileObjView hp g"
  by (simp add: fileObjView_def nth_append)

lemma fileObjView_push:
  "h < length hp \<Longrightarrow> h \<notin> set (fo_hunks f) \<Longrightarrow>
   fileObjView (hp[h := (hp ! h)\<lparr>content := c\<rparr>]) (f\<lparr>fo_hunks := fo_hunks f @ [h]\<rparr>) =
     (fo_additions f, fo_deletions f, map (\<lambda>r. content (hp ! r)) (fo_hunks f) @ [c])"
  by (auto simp: fileObjView_def nth_list_update)

text \<open>The state after saveHunk, in the two cases.\<close>

lemma saveHunk_idle:
  "currentFile st = None \<or> currentHunk st = None \<Longrightarrow> saveHunk st = st"
  by (auto simp: saveHunk_def split: option.splits)

lemma saveHunk_push:
  "currentFile st = Some f \<Longrightarrow> currentHunk st = Some h \<Longrightarrow>
   saveHunk st =
     st\<lparr>store := (store st)[h := (store st ! h)\<lparr>content := join [CHR 0x0A] (hunkContent st)\<rparr>],
        currentFile := Some (f\<lparr>fo_hunks := fo_hunks f @ [h]\<rparr>)\<rparr>"
  by (simp add: saveHunk_def)

text \<open>What saveHunk does to the view: the open hunk is closed in the current file.\<close>

lemma saveHunk_view:
  assumes "viewOf st (closed, cur, opn, acc)"
  shows "map (fileObjView (store (saveHunk st))) (ps_files (saveHunk st)) = map joinView closed"
    and "map_option (fileObjView (store (saveHunk st))) (currentFile (saveHunk st)) =
           map_option (\<lambda>fv. joinView (closeHunk opn acc fv)) cur"
    and "length (store (saveHunk st)) = length (store st)"
    and "ps_files (saveHunk st) = ps_files st"
    and "currentHunk (saveHunk st) = currentHunk st"
    and "hunkContent (saveHunk st) = hunkContent st"
    and "\<forall>f \<in> set (ps_files st). \<forall>r \<in> set (fo_hunks f). r < length (store st)"
    and "\<forall>f. currentFile (saveHunk st) = Some f \<longrightarrow> (\<forall>r \<in> set (fo_hunks f). r < length (store st))"
proof -
  from assms have ok: "stateOk st"
    and d: "map (fileObjView (store st)) (ps_files st) = map joinView closed"
    and c: "map_option (fileObjView (store st)) (currentFile st) = map_option joinView cur"
    and o: "(currentHunk st \<noteq> None) = opn"
    and a: "hunkContent st = acc"
    by (simp_all add: viewOf_def)
  show "length (store (saveHunk st)) = length (store st)"
    by (simp add: saveHunk_def split: option.splits)
  show "ps_files (saveHunk st) = ps_files st"
    by (simp add: saveHunk_def split: option.splits)
  show "currentHunk (saveHunk st) = currentHunk st"
    by (simp add: saveHunk_def split: option.splits)
  show "hunkContent (saveHunk st) = hunkContent st"
    by (simp add: saveHunk_def split: option.splits)
  show "\<forall>f \<in> set (ps_files st). \<forall>r \<in> set (fo_hunks f). r < length (store st)"
    using ok by (simp add: stateOk_def refsOk_def)
  show "\<forall>f. currentFile (saveHunk st) = Some f \<longrightarrow> (\<forall>r \<in> set (fo_hunks f). r < length (store st))"
    using ok by (auto simp: saveHunk_def stateOk_def refsOk_def split: option.splits)
  show "map (fileObjView (store (saveHunk st))) (ps_files (saveHunk st)) = map joinView closed"
  proof (cases "currentFile st")
    case None
    then show ?thesis by (simp add: saveHunk_idle d)
  next
    case (Some f)
    show ?thesis
    proof (cases "currentHunk st")
      case None
      then show ?thesis by (simp add: saveHunk_idle d)
    next
      case (Some h)
      have "\<forall>g \<in> set (ps_files st). h \<notin> set (fo_hunks g)"
        using ok Some by (auto simp: stateOk_def refsOk_def)
      then have "map (fileObjView ((store st)[h := (store st ! h)\<lparr>content := join [CHR 0x0A] (hunkContent st)\<rparr>])) (ps_files st)
          = map (fileObjView (store st)) (ps_files st)"
        by (intro map_cong refl fileObjView_update) blast
      with \<open>currentFile st = Some f\<close> Some d show ?thesis
        by (simp add: saveHunk_push)
    qed
  qed
  show "map_option (fileObjView (store (saveHunk st))) (currentFile (saveHunk st)) =
           map_option (\<lambda>fv. joinView (closeHunk opn acc fv)) cur"
  proof (cases "currentFile st")
    case None
    with c show ?thesis by (simp add: saveHunk_idle)
  next
    case (Some f)
    with c obtain fv where cur: "cur = Some fv" and fv: "fileObjView (store st) f = joinView fv"
      by (cases cur) auto
    obtain x y hs where fvd: "fv = (x, y, hs)" by (cases fv)
    show ?thesis
    proof (cases "currentHunk st")
      case None
      with o have "\<not> opn" by simp
      with None Some cur fv show ?thesis
        by (simp add: saveHunk_idle closeHunk_def fvd)
    next
      case (Some h)
      with o have opn by auto
      have h: "h < length (store st)" and nh: "h \<notin> set (fo_hunks f)"
        using ok Some \<open>currentFile st = Some f\<close> by (auto simp: stateOk_def refsOk_def)
      from fv fvd have "fo_additions f = x" "fo_deletions f = y"
        "map (\<lambda>r. content (store st ! r)) (fo_hunks f) = map (join [CHR 0x0A]) hs"
        by (simp_all add: fileObjView_def joinView_def)
      with Some \<open>currentFile st = Some f\<close> cur \<open>opn\<close> a show ?thesis
        by (simp add: saveHunk_push fileObjView_push[OF h nh] closeHunk_def fvd joinView_def)
    qed
  qed
qed

lemma fileObjView_new [simp]:
  "fileObjView hp \<lparr>fo_path = p, fo_additions = 0, fo_deletions = 0, fo_hunks = []\<rparr> = joinView (0, 0, [])"
  by (simp add: fileObjView_def joinView_def)

lemma pushFile_view:
  assumes "viewOf st (closed, cur, opn, acc)"
  shows "map (fileObjView (store (saveHunk st))) (pushFile (saveHunk st)) =
         map joinView (closeFile (closed, cur, opn, acc))"
proof (cases cur)
  case None
  with saveHunk_view(2)[OF assms] have "currentFile (saveHunk st) = None" by simp
  with None saveHunk_view(1)[OF assms] show ?thesis
    by (simp add: pushFile_def closeFile_def)
next
  case (Some fv)
  with saveHunk_view(2)[OF assms] obtain f where "currentFile (saveHunk st) = Some f"
    and "fileObjView (store (saveHunk st)) f = joinView (closeHunk opn acc fv)"
    by (cases "currentFile (saveHunk st)") simp_all
  with Some saveHunk_view(1)[OF assms] show ?thesis
    by (simp add: pushFile_def closeFile_def)
qed

lemma pushFile_refs:
  assumes "viewOf st (closed, cur, opn, acc)"
  shows "\<forall>f \<in> set (pushFile (saveHunk st)). \<forall>r \<in> set (fo_hunks f). r < length (store st)"
  using saveHunk_view(4,7,8)[OF assms]
  by (auto simp: pushFile_def split: option.splits)

lemma sim_fileHeader:
  assumes v: "viewOf st (closed, cur, opn, acc)" and l: "isFileHeader l"
  shows "viewOf (parseLine st l) (viewLine (closed, cur, opn, acc) l)"
proof -
  let ?st1 = "saveHunk st"
  let ?p = "case matchFileHeader l of Some p \<Rightarrow> p | None \<Rightarrow> []"
  have pl: "parseLine st l =
      ?st1\<lparr>ps_files := pushFile ?st1,
           currentFile := Some \<lparr>fo_path = ?p, fo_additions = 0, fo_deletions = 0, fo_hunks = []\<rparr>,
           currentHunk := None, hunkContent := []\<rparr>"
    using l by (simp add: parseLine_def isFileHeader_def Let_def)
  have vl: "viewLine (closed, cur, opn, acc) l = (closeFile (closed, cur, opn, acc), Some (0, 0, []), False, [])"
    using l by (simp add: viewLine_def)
  show ?thesis
    unfolding pl vl
    using pushFile_view[OF v] pushFile_refs[OF v] saveHunk_view(3)[OF v]
    by (simp add: viewOf_def stateOk_def refsOk_def)
qed

lemma sim_hunkHeader:
  assumes v: "viewOf st (closed, cur, opn, acc)"
    and l: "\<not> isFileHeader l" "\<not> isMetadata l" "isHunkHeader l"
    and wf: "matchHunkHeader l = Some h"
  shows "viewOf (parseLine st l) (viewLine (closed, cur, opn, acc) l)"
proof -
  let ?st1 = "saveHunk st"
  have pl: "parseLine st l =
      ?st1\<lparr>store := store ?st1 @ [h], currentHunk := Some (length (store ?st1)),
           hunkContent := [l]\<rparr>"
    using l wf by (simp add: parseLine_def isFileHeader_def isHunkHeader_def Let_def)
  have vl: "viewLine (closed, cur, opn, acc) l = (closed, map_option (closeHunk opn acc) cur, True, [l])"
    using l by (simp add: viewLine_def)
  have len: "length (store ?st1) = length (store st)"
    by (rule saveHunk_view(3)[OF v])
  have r1: "\<forall>f \<in> set (ps_files ?st1). \<forall>r \<in> set (fo_hunks f). r < length (store ?st1)"
    using saveHunk_view(4,7)[OF v] len by simp
  have r2: "\<forall>f. currentFile ?st1 = Some f \<longrightarrow> (\<forall>r \<in> set (fo_hunks f). r < length (store ?st1))"
    using saveHunk_view(8)[OF v] len by simp
  have m1: "map (fileObjView (store ?st1 @ [h])) (ps_files ?st1) = map joinView closed"
  proof -
    have "map (fileObjView (store ?st1 @ [h])) (ps_files ?st1) =
          map (fileObjView (store ?st1)) (ps_files ?st1)"
      using r1 by (intro map_cong refl fileObjView_append) blast
    then show ?thesis using saveHunk_view(1)[OF v] by simp
  qed
  have m2: "map_option (fileObjView (store ?st1 @ [h])) (currentFile ?st1) =
            map_option joinView (map_option (closeHunk opn acc) cur)"
  proof (cases "currentFile ?st1")
    case None
    with saveHunk_view(2)[OF v] show ?thesis by simp
  next
    case (Some f)
    with r2 have "fileObjView (store ?st1 @ [h]) f = fileObjView (store ?st1) f"
      by (intro fileObjView_append) blast
    with Some saveHunk_view(2)[OF v] show ?thesis
      by (cases cur) auto
  qed
  have r1': "\<And>f r. f \<in> set (ps_files ?st1) \<Longrightarrow> r \<in> set (fo_hunks f) \<Longrightarrow>
               r < Suc (length (store ?st1))"
    using r1 by (auto intro: less_SucI)
  have r2': "\<And>f r. currentFile ?st1 = Some f \<Longrightarrow> r \<in> set (fo_hunks f) \<Longrightarrow>
               r < Suc (length (store ?st1))"
    using r2 by (auto intro: less_SucI)
  show ?thesis
    unfolding pl vl using m1 m2 r1 r2 r1' r2'
    by (auto simp: viewOf_def stateOk_def refsOk_def)
qed

lemma fileObjView_bump:
  "fileObjView hp f = joinView fv \<Longrightarrow>
   fileObjView hp
     (if isAddition l then f\<lparr>fo_additions := fo_additions f + 1\<rparr>
      else if isDeletion l then f\<lparr>fo_deletions := fo_deletions f + 1\<rparr> else f) =
   joinView (bumpCounters l fv)"
  by (cases fv) (auto simp: fileObjView_def joinView_def bumpCounters_def)

lemma sim_content:
  assumes v: "viewOf st (closed, cur, opn, acc)"
    and l: "\<not> isFileHeader l" "\<not> isMetadata l" "\<not> isHunkHeader l"
  shows "viewOf (parseLine st l) (viewLine (closed, cur, opn, acc) l)"
proof (cases "currentHunk st")
  case None
  with v have "\<not> opn" by (auto simp: viewOf_def)
  with None l v show ?thesis
    by (simp add: parseLine_def viewLine_def isFileHeader_def isHunkHeader_def)
next
  case (Some h)
  with v have opn by (auto simp: viewOf_def)
  have vl: "viewLine (closed, cur, opn, acc) l = (closed, map_option (bumpCounters l) cur, True, acc @ [l])"
    using l \<open>opn\<close> by (simp add: viewLine_def)
  show ?thesis
  proof (cases "currentFile st")
    case None
    have pl: "parseLine st l = st\<lparr>hunkContent := hunkContent st @ [l]\<rparr>"
      using l Some None
      by (simp add: parseLine_def isFileHeader_def isHunkHeader_def Let_def)
    from v None have "cur = None" by (cases cur) (auto simp: viewOf_def)
    with v None \<open>currentHunk st = Some h\<close> show ?thesis
      unfolding pl vl by (auto simp: viewOf_def stateOk_def refsOk_def)
  next
    case (Some f)
    have pl: "parseLine st l =
       st\<lparr>hunkContent := hunkContent st @ [l],
          currentFile := Some (if isAddition l then f\<lparr>fo_additions := fo_additions f + 1\<rparr>
            else if isDeletion l then f\<lparr>fo_deletions := fo_deletions f + 1\<rparr> else f)\<rparr>"
      using l Some \<open>currentHunk st = Some h\<close>
      by (simp add: parseLine_def isFileHeader_def isHunkHeader_def Let_def
                    isAddition_def isDeletion_def)
    from v Some obtain fv where cur: "cur = Some fv"
      and fv: "fileObjView (store st) f = joinView fv"
      by (cases cur) (auto simp: viewOf_def)
    show ?thesis
      unfolding pl vl using v Some cur fileObjView_bump[OF fv, of l] \<open>currentHunk st = Some h\<close>
      by (auto simp: viewOf_def stateOk_def refsOk_def)
  qed
qed

lemma sim_step:
  assumes v: "viewOf st v" and wf: "isHunkHeader l \<longrightarrow> matchHunkHeader l \<noteq> None"
  shows "viewOf (parseLine st l) (viewLine v l)"
proof -
  obtain fin cur opn acc where vd: "v = (fin, cur, opn, acc)" by (cases v)
  consider (fh) "isFileHeader l" | (meta) "\<not> isFileHeader l" "isMetadata l"
    | (hh) "\<not> isFileHeader l" "\<not> isMetadata l" "isHunkHeader l"
    | (other) "\<not> isFileHeader l" "\<not> isMetadata l" "\<not> isHunkHeader l"
    by blast
  then show ?thesis
  proof cases
    case fh
    with v show ?thesis unfolding vd by (intro sim_fileHeader)
  next
    case meta
    with v show ?thesis
      by (simp add: vd parseLine_def viewLine_def isFileHeader_def)
  next
    case hh
    with wf obtain h where "matchHunkHeader l = Some h" by auto
    with hh v show ?thesis unfolding vd by (intro sim_hunkHeader)
  next
    case other
    with v show ?thesis unfolding vd by (intro sim_content)
  qed
qed

lemma sim_run:
  "viewOf st v \<Longrightarrow> \<forall>l \<in> set ls. isHunkHeader l \<longrightarrow> matchHunkHeader l \<noteq> None \<Longrightarrow>
   viewOf (foldl parseLine st ls) (foldl viewLine v ls)"
  by (induction ls arbitrary: st v) (simp_all add: sim_step)

lemma sim_init: "viewOf initialState ([], None, False, [])"
  by (simp add: viewOf_def initialState_def stateOk_def)

lemma resolveFile_view: "diffFileView (resolveFile hp f) = fileObjView hp f"
  by (simp add: diffFileView_def resolveFile_def fileObjView_def comp_def)

lemma sim_finish:
  assumes "viewOf st v"
  shows "map diffFileView (finish st) = map joinView (closeFile v)"
proof -
  obtain fin cur opn acc where vd: "v = (fin, cur, opn, acc)" by (cases v)
  show ?thesis
    using pushFile_view[OF assms[unfolded vd]]
    by (simp add: finish_def Let_def vd comp_def resolveFile_view)
qed

lemma parseDiff_view:
  assumes "hunkHeadersWellFormed (splitLines d)"
  shows "map diffFileView (parseDiff d) =
         map joinView (closeFile (foldl viewLine ([], None, False, []) (splitLines d)))"
  unfolding parseDiff_def
  using assms by (intro sim_finish sim_run sim_init) (simp add: hunkHeadersWellFormed_def)

subsection \<open>The hunks and counters of the view\<close>

lemma fileHeader_not_metadata: "isFileHeader l \<Longrightarrow> \<not> isMetadata l"
  by (auto simp: isFileHeader_def isMetadata_def startsWith_def prefix_def)

lemma hunkHeader_not_metadata: "isHunkHeader l \<Longrightarrow> \<not> isMetadata l"
  by (auto simp: isHunkHeader_def isMetadata_def startsWith_def prefix_def)

lemma hunkHeader_not_fileHeader: "isHunkHeader l \<Longrightarrow> \<not> isFileHeader l"
  by (auto simp: isHunkHeader_def isFileHeader_def startsWith_def prefix_def)

lemma hunkHeader_not_marked: "isHunkHeader l \<Longrightarrow> \<not> isAddition l \<and> \<not> isDeletion l"
  by (auto simp: isHunkHeader_def isAddition_def isDeletion_def startsWith_def prefix_def)

lemma segments_dropWhile: "segments P (dropWhile (\<lambda>y. \<not> P y) xs) = segments P xs"
  by (induction xs) auto

lemma hunkSections_Nil: "hunkSections [] = []"
  by (simp add: hunkSections_def)

lemma hunkSections_fileHeader:
  "isFileHeader l \<Longrightarrow>
   hunkSections (l # ls) = segments isHunkHeader (fileBody ls) # hunkSections ls"
  by (simp add: hunkSections_def fileBody_def fileHeader_not_metadata segments_dropWhile)

lemma hunkSections_other: "\<not> isFileHeader l \<Longrightarrow> hunkSections (l # ls) = hunkSections ls"
  by (simp add: hunkSections_def)

lemma fileBody_Nil: "fileBody [] = []"
  by (simp add: fileBody_def)

lemma fileBody_fileHeader: "isFileHeader l \<Longrightarrow> fileBody (l # ls) = []"
  by (simp add: fileBody_def fileHeader_not_metadata)

lemma fileBody_metadata: "isMetadata l \<Longrightarrow> fileBody (l # ls) = fileBody ls"
  by (simp add: fileBody_def)

lemma fileBody_other:
  "\<not> isFileHeader l \<Longrightarrow> \<not> isMetadata l \<Longrightarrow> fileBody (l # ls) = l # fileBody ls"
  by (simp add: fileBody_def)

lemma openPart_Nil: "openPart opn acc [] = (if opn then [acc] else [])"
  by (simp add: openPart_def)

lemma openPart_closed: "openPart False acc body = segments isHunkHeader body"
  by (simp add: openPart_def segments_dropWhile)

lemma openPart_hunkHeader:
  "isHunkHeader l \<Longrightarrow>
   openPart opn acc (l # body) = (if opn then [acc] else []) @ openPart True [l] body"
  by (simp add: openPart_def)

lemma openPart_content:
  "\<not> isHunkHeader l \<Longrightarrow>
   openPart opn acc (l # body) = (if opn then openPart True (acc @ [l]) body else openPart False acc body)"
  by (simp add: openPart_def)


lemma hunksOf_closeHunk: "hunksOf (closeHunk opn acc fv) = hunksOf fv @ (if opn then [acc] else [])"
  by (cases fv) (simp add: hunksOf_def closeHunk_def)

lemma hunksOf_bump: "hunksOf (bumpCounters l fv) = hunksOf fv"
  by (cases fv) (simp add: hunksOf_def bumpCounters_def)

lemma closeFile_None: "closeFile (fin, None, opn, acc) = fin"
  by (simp add: closeFile_def)

lemma closeFile_Some: "closeFile (fin, Some fv, opn, acc) = fin @ [closeHunk opn acc fv]"
  by (simp add: closeFile_def)

lemma view_structure:
  "map hunksOf (closeFile (foldl viewLine (fin, cur, opn, acc) ls)) =
     map hunksOf fin @
     (case cur of None \<Rightarrow> [] | Some fv \<Rightarrow> [hunksOf fv @ openPart opn acc (fileBody ls)]) @
     hunkSections ls"
proof (induction ls arbitrary: fin cur opn acc)
  case Nil
  show ?case
    by (cases cur)
       (simp_all add: closeFile_None closeFile_Some hunkSections_Nil fileBody_Nil openPart_Nil
          hunksOf_closeHunk)
next
  case (Cons l ls)
  consider (fh) "isFileHeader l" | (meta) "\<not> isFileHeader l" "isMetadata l"
    | (hh) "\<not> isFileHeader l" "\<not> isMetadata l" "isHunkHeader l"
    | (other) "\<not> isFileHeader l" "\<not> isMetadata l" "\<not> isHunkHeader l"
    by blast
  then show ?case
  proof cases
    case fh
    have "viewLine (fin, cur, opn, acc) l = (closeFile (fin, cur, opn, acc), Some (0, 0, []), False, [])"
      using fh by (simp add: viewLine_def)
    then show ?thesis
      using fh
      by (cases cur)
         (simp_all add: Cons.IH hunkSections_fileHeader fileBody_fileHeader openPart_Nil
            openPart_closed closeFile_None closeFile_Some hunksOf_closeHunk, simp_all add: hunksOf_def)
  next
    case meta
    have "viewLine (fin, cur, opn, acc) l = (fin, cur, opn, acc)"
      using meta by (simp add: viewLine_def)
    then show ?thesis
      using meta
      by (cases cur) (simp_all add: Cons.IH fileBody_metadata hunkSections_other)
  next
    case hh
    have "viewLine (fin, cur, opn, acc) l = (fin, map_option (closeHunk opn acc) cur, True, [l])"
      using hh by (simp add: viewLine_def)
    then show ?thesis
      using hh
      by (cases cur)
         (simp_all add: Cons.IH hunkSections_other fileBody_other openPart_hunkHeader
            hunksOf_closeHunk)
  next
    case other
    show ?thesis
    proof (cases opn)
      case True
      have "viewLine (fin, cur, opn, acc) l = (fin, map_option (bumpCounters l) cur, True, acc @ [l])"
        using other True by (simp add: viewLine_def)
      then show ?thesis
        using other True
        by (cases cur)
           (simp_all add: Cons.IH hunkSections_other fileBody_other openPart_content hunksOf_bump)
    next
      case False
      have "viewLine (fin, cur, opn, acc) l = (fin, cur, opn, acc)"
        using other False by (simp add: viewLine_def)
      then show ?thesis
        using other False
        by (cases cur)
           (simp_all add: Cons.IH hunkSections_other fileBody_other openPart_content)
    qed
  qed
qed

lemma view_hunks:
  "map hunksOf (closeFile (foldl viewLine ([], None, False, []) ls)) = hunkSections ls"
  by (simp add: view_structure)

lemma countsOk_closeHunk:
  "countsOk (if opn then acc else []) fv \<Longrightarrow> countsOk [] (closeHunk opn acc fv)"
  by (cases fv) (auto simp: countsOk_def closeHunk_def)

lemma countsOk_bump:
  "countsOk acc fv \<Longrightarrow> countsOk (acc @ [l]) (bumpCounters l fv)"
  by (cases fv) (auto simp: countsOk_def bumpCounters_def isAddition_def isDeletion_def startsWith_def prefix_def)

lemma viewOk_closeFile: "viewOk v \<Longrightarrow> \<forall>fv \<in> set (closeFile v). countsOk [] fv"
  by (cases v) (auto simp: viewOk_def closeFile_def countsOk_closeHunk split: option.splits)

lemma viewOk_step: "viewOk v \<Longrightarrow> viewOk (viewLine v l)"
proof -
  assume ok: "viewOk v"
  obtain fin cur opn acc where vd: "v = (fin, cur, opn, acc)" by (cases v)
  consider (fh) "isFileHeader l" | (meta) "\<not> isFileHeader l" "isMetadata l"
    | (hh) "\<not> isFileHeader l" "\<not> isMetadata l" "isHunkHeader l"
    | (other) "\<not> isFileHeader l" "\<not> isMetadata l" "\<not> isHunkHeader l"
    by blast
  then show ?thesis
  proof cases
    case fh
    then have "viewLine v l = (closeFile v, Some (0, 0, []), False, [])"
      by (simp add: viewLine_def vd)
    with viewOk_closeFile[OF ok] show ?thesis
      by (simp add: viewOk_def countsOk_def)
  next
    case meta
    with ok show ?thesis by (simp add: viewLine_def vd)
  next
    case hh
    then have vl: "viewLine (fin, cur, opn, acc) l = (fin, map_option (closeHunk opn acc) cur, True, [l])"
      by (simp add: viewLine_def)
    have eq: "countsOk [l] fv = countsOk [] fv" for fv
      using hunkHeader_not_marked[OF hh(3)] by (cases fv) (simp add: countsOk_def)
    have "countsOk [l] (closeHunk opn acc fv)" if "cur = Some fv" for fv
      using ok that unfolding eq vd
      by (intro countsOk_closeHunk) (cases fv, auto simp: viewOk_def)
    with ok show ?thesis
      unfolding vd vl by (cases cur) (auto simp: viewOk_def)
  next
    case other
    show ?thesis
    proof (cases opn)
      case True
      with other have vl: "viewLine (fin, cur, opn, acc) l = (fin, map_option (bumpCounters l) cur, True, acc @ [l])"
        by (simp add: viewLine_def)
      have "countsOk (acc @ [l]) (bumpCounters l fv)" if "cur = Some fv" for fv
        using ok that True unfolding vd
        by (intro countsOk_bump) (cases fv, auto simp: viewOk_def)
      with ok True show ?thesis
        unfolding vd vl by (cases cur) (auto simp: viewOk_def)
    next
      case False
      with other ok show ?thesis by (simp add: viewLine_def vd)
    qed
  qed
qed

lemma viewOk_run: "viewOk v \<Longrightarrow> viewOk (foldl viewLine v ls)"
  by (induction ls arbitrary: v) (simp_all add: viewOk_step)

lemma view_counts:
  "\<forall>fv \<in> set (closeFile (foldl viewLine ([], None, False, []) ls)). countsOk [] fv"
  by (intro viewOk_closeFile viewOk_run) (simp add: viewOk_def)

subsection \<open>The parsed files\<close>

lemma sum_marked:
  "sum_list (map (\<lambda>hs. length (filter P (concat hs))) xs) = length (filter P (concat (concat xs)))"
  by (induction xs) simp_all



lemma parseDiff_counters:
  assumes "hunkHeadersWellFormed (splitLines d)"
  shows "map additions (parseDiff d) =
           map (\<lambda>hs. length (filter isAddition (concat hs))) (hunkSections (splitLines d))"
    and "map deletions (parseDiff d) =
           map (\<lambda>hs. length (filter isDeletion (concat hs))) (hunkSections (splitLines d))"
proof -
  let ?V = "closeFile (foldl viewLine ([], None, False, []) (splitLines d))"
  have ok: "\<forall>fv \<in> set ?V. countsOk [] fv" by (rule view_counts)
  have eq: "map diffFileView (parseDiff d) = map joinView ?V"
    by (rule parseDiff_view[OF assms])
  have "map (\<lambda>x. fst x) (map diffFileView (parseDiff d)) = map (\<lambda>x. fst x) (map joinView ?V)"
    by (simp only: eq)
  then have "map additions (parseDiff d) = map (\<lambda>fv. fst fv) ?V"
    by (simp add: comp_def diffFileView_def joinView_def split_def)
  also have "\<dots> = map (\<lambda>fv. length (filter isAddition (concat (hunksOf fv)))) ?V"
    using ok by (intro map_cong refl) (auto simp: countsOk_def hunksOf_def)
  also have "\<dots> = map (\<lambda>hs. length (filter isAddition (concat hs))) (map hunksOf ?V)"
    by (simp add: comp_def)
  finally show "map additions (parseDiff d) =
           map (\<lambda>hs. length (filter isAddition (concat hs))) (hunkSections (splitLines d))"
    by (simp only: view_hunks)
  have "map (\<lambda>x. fst (snd x)) (map diffFileView (parseDiff d)) =
        map (\<lambda>x. fst (snd x)) (map joinView ?V)"
    by (simp only: eq)
  then have "map deletions (parseDiff d) = map (\<lambda>fv. fst (snd fv)) ?V"
    by (simp add: comp_def diffFileView_def joinView_def split_def)
  also have "\<dots> = map (\<lambda>fv. length (filter isDeletion (concat (hunksOf fv)))) ?V"
    using ok by (intro map_cong refl) (auto simp: countsOk_def hunksOf_def)
  also have "\<dots> = map (\<lambda>hs. length (filter isDeletion (concat hs))) (map hunksOf ?V)"
    by (simp add: comp_def)
  finally show "map deletions (parseDiff d) =
           map (\<lambda>hs. length (filter isDeletion (concat hs))) (hunkSections (splitLines d))"
    by (simp only: view_hunks)
qed

text \<open>
  C1, as amended. In a diff whose lines starting with \<open>@@\<close> all have the shape of a
  hunk header, the \<open>additions\<close> of the parsed files add up to the number of lines that
  start with \<open>+\<close> but not \<open>+++\<close> and lie inside a hunk, and the \<open>deletions\<close> to the
  number of lines that start with \<open>-\<close> but not \<open>---\<close> and lie inside a hunk. Lines
  before the first file header, or in a file before its first hunk header, are dropped
  and not counted.
\<close>

theorem parseDiff_counts:
  assumes "hunkHeadersWellFormed (splitLines d)"
  shows "sum_list (map additions (parseDiff d)) =
           length (filter isAddition (concat (concat (hunkSections (splitLines d))))) \<and>
         sum_list (map deletions (parseDiff d)) =
           length (filter isDeletion (concat (concat (hunkSections (splitLines d)))))"
proof -
  let ?secs = "hunkSections (splitLines d)"
  have "sum_list (map additions (parseDiff d)) =
        sum_list (map (\<lambda>hs. length (filter isAddition (concat hs))) ?secs)"
    by (simp only: parseDiff_counters(1)[OF assms])
  moreover have "sum_list (map deletions (parseDiff d)) =
        sum_list (map (\<lambda>hs. length (filter isDeletion (concat hs))) ?secs)"
    by (simp only: parseDiff_counters(2)[OF assms])
  ultimately show ?thesis by (simp only: sum_marked)
qed

theorem parseDiff_counts_witness:
  "hunkHeadersWellFormed (splitLines
     (''diff --git a/f b/f'' @ [CHR 0x0A] @ ''@@ -1,2 +1,3 @@'' @ [CHR 0x0A] @
      '' a'' @ [CHR 0x0A] @ ''+b'' @ [CHR 0x0A] @ ''-c'' @ [CHR 0x0A] @ ''+d'')) \<and>
   (sum_list (map additions (parseDiff
     (''diff --git a/f b/f'' @ [CHR 0x0A] @ ''@@ -1,2 +1,3 @@'' @ [CHR 0x0A] @
      '' a'' @ [CHR 0x0A] @ ''+b'' @ [CHR 0x0A] @ ''-c'' @ [CHR 0x0A] @ ''+d''))) =
    length (filter isAddition (concat (concat (hunkSections (splitLines
     (''diff --git a/f b/f'' @ [CHR 0x0A] @ ''@@ -1,2 +1,3 @@'' @ [CHR 0x0A] @
      '' a'' @ [CHR 0x0A] @ ''+b'' @ [CHR 0x0A] @ ''-c'' @ [CHR 0x0A] @ ''+d''))))))) \<and>
   length (filter isAddition (concat (concat (hunkSections (splitLines
     (''diff --git a/f b/f'' @ [CHR 0x0A] @ ''@@ -1,2 +1,3 @@'' @ [CHR 0x0A] @
      '' a'' @ [CHR 0x0A] @ ''+b'' @ [CHR 0x0A] @ ''-c'' @ [CHR 0x0A] @ ''+d'')))))) = 2"
proof -
  let ?d = "''diff --git a/f b/f'' @ [CHR 0x0A] @ ''@@ -1,2 +1,3 @@'' @ [CHR 0x0A] @
      '' a'' @ [CHR 0x0A] @ ''+b'' @ [CHR 0x0A] @ ''-c'' @ [CHR 0x0A] @ ''+d''"
  have h: "hunkHeadersWellFormed (splitLines ?d)"
    by code_simp
  have n: "length (filter isAddition (concat (concat (hunkSections (splitLines ?d))))) = 2"
    by code_simp
  from parseDiff_counts[OF h] h n show ?thesis by blast
qed

text \<open>
  The claim as stated counts every line of the input: the one-line input \<open>+x\<close> has
  such a line and no file at all.
\<close>

theorem parseDiff_counts_counterexample:
  "sum_list (map additions (parseDiff ''+x'')) \<noteq>
   length (filter (\<lambda>l. startsWith l ''+'' \<and> \<not> startsWith l ''+++'') (splitLines ''+x''))"
  by code_simp

text \<open>
  C5. A file with a well-formed hunk header, one added line, a malformed header and
  another added line: the parser returns two hunk records for the one well-formed
  header, both with the text that follows the malformed header, and counts both added
  lines. The malformed header leaves \<open>currentHunk\<close> pointing at the hunk that has just
  been pushed, so that hunk is overwritten and pushed again.
\<close>

theorem parseDiff_malformed_hunk_header:
  "parseDiff (''diff --git a/f b/f'' @ [CHR 0x0A] @ ''@@ -1 +1 @@'' @ [CHR 0x0A] @
              ''+a'' @ [CHR 0x0A] @ ''@@ bad'' @ [CHR 0x0A] @ ''+b'') =
   [\<lparr>path = ''f'', additions = 2, deletions = 0,
     hunks =
       [\<lparr>oldStart = 1, oldLines = 1, newStart = 1, newLines = 1,
          content = ''@@ bad'' @ [CHR 0x0A] @ ''+b''\<rparr>,
        \<lparr>oldStart = 1, oldLines = 1, newStart = 1, newLines = 1,
          content = ''@@ bad'' @ [CHR 0x0A] @ ''+b''\<rparr>]\<rparr>]"
  by code_simp

text \<open>
  With no hunk open in the file, a malformed header opens none and the lines after it
  are dropped.
\<close>

lemma parseDiff_malformed_first_header:
  "parseDiff (''diff --git a/f b/f'' @ [CHR 0x0A] @ ''@@ bad'' @ [CHR 0x0A] @ ''+b'') =
   [\<lparr>path = ''f'', additions = 0, deletions = 0, hunks = []\<rparr>]"
  by code_simp




section \<open>Properties of the file filter\<close>

subsection \<open>The replacements on plain patterns\<close>

lemma render_Nil [simp]: "render gs st dot [] = []"
  by (simp add: render_def)

lemma render_Cons: "render gs st dot (t # ts) = renderToken gs st dot t @ render gs st dot ts"
  by (simp add: render_def)

lemma render_GlobStar [simp]: "render gs st dot (GlobStar # ts) = gs @ render gs st dot ts"
  by (simp add: render_Cons renderToken_def)

lemma render_Star [simp]: "render gs st dot (Star # ts) = st @ render gs st dot ts"
  by (simp add: render_Cons renderToken_def)

lemma render_Char [simp]:
  "render gs st dot (Char c # ts) = (if c = CHR ''.'' then dot else [c]) @ render gs st dot ts"
  by (simp add: render_Cons renderToken_def)

lemma globTokens_ok: "plainGlob p \<Longrightarrow> tokensOk (globTokens p)"
proof (induction p rule: globTokens.induct)
  case 1
  then show ?case by simp
next
  case (2 c)
  then show ?case by (simp add: plainGlob_def)
next
  case (3 c d cs)
  have p1: "plainGlob cs" and p2: "plainGlob (d # cs)"
    using "3.prems" by (simp_all add: plainGlob_def)
  show ?case
  proof (cases "c = CHR ''*''")
    case True
    show ?thesis
    proof (cases "d = CHR ''*''")
      case True
      with \<open>c = CHR ''*''\<close> "3.IH"(1) p1 show ?thesis by simp
    next
      case False
      with \<open>c = CHR ''*''\<close> "3.IH"(2) p2 have ok: "tokensOk (globTokens (d # cs))" by simp
      have "globTokens (d # cs) = Char d # globTokens cs"
        using False by (cases cs) simp_all
      with ok False \<open>c = CHR ''*''\<close> show ?thesis by simp
    qed
  next
    case False
    with "3.IH"(3) p2 have "tokensOk (globTokens (d # cs))" by simp
    with False "3.prems" show ?thesis by (simp add: plainGlob_def)
  qed
qed

lemma globTokens_render: "render ''**'' ''*'' ''.'' (globTokens p) = p"
  by (induction p rule: globTokens.induct) auto

lemma stage1:
  "tokensOk ts \<Longrightarrow>
   replaceAll ''.'' [CHR 0x5C, CHR ''.''] (render ''**'' ''*'' ''.'' ts) =
   render ''**'' ''*'' [CHR 0x5C, CHR ''.''] ts"
proof (induction ts)
  case Nil
  then show ?case by simp
next
  case (Cons t ts)
  then show ?case by (cases t) auto
qed

lemma star_not_first:
  "tokensOk (Star # ts) \<Longrightarrow> \<not> prefix ''*'' (render gs st [CHR 0x5C, CHR ''.''] ts)"
proof (cases ts)
  case Nil
  then show ?thesis by simp
next
  case (Cons t ts')
  assume "tokensOk (Star # ts)"
  with Cons show ?thesis by (cases t) auto
qed

lemma stage2:
  "tokensOk ts \<Longrightarrow>
   replaceAll ''**'' ''{{GLOBSTAR}}'' (render ''**'' ''*'' [CHR 0x5C, CHR ''.''] ts) =
   render ''{{GLOBSTAR}}'' ''*'' [CHR 0x5C, CHR ''.''] ts"
proof (induction ts)
  case Nil
  then show ?case by simp
next
  case (Cons t ts)
  show ?case
  proof (cases t)
    case GlobStar
    with Cons show ?thesis by simp
  next
    case Star
    with Cons.prems have "\<not> prefix ''*'' (render ''**'' ''*'' [CHR 0x5C, CHR ''.''] ts)"
      by (intro star_not_first) simp
    with Star Cons show ?thesis by simp
  next
    case (Char c)
    with Cons show ?thesis by auto
  qed
qed

lemma stage3:
  "tokensOk ts \<Longrightarrow>
   replaceAll ''*'' ''[^/]*'' (render ''{{GLOBSTAR}}'' ''*'' [CHR 0x5C, CHR ''.''] ts) =
   render ''{{GLOBSTAR}}'' ''[^/]*'' [CHR 0x5C, CHR ''.''] ts"
proof (induction ts)
  case Nil
  then show ?case by simp
next
  case (Cons t ts)
  then show ?case by (cases t) auto
qed

lemma stage4:
  "tokensOk ts \<Longrightarrow>
   replaceAll ''{{GLOBSTAR}}'' ''.*'' (render ''{{GLOBSTAR}}'' ''[^/]*'' [CHR 0x5C, CHR ''.''] ts) =
   render ''.*'' ''[^/]*'' [CHR 0x5C, CHR ''.''] ts"
proof (induction ts)
  case Nil
  then show ?case by simp
next
  case (Cons t ts)
  then show ?case by (cases t) auto
qed

lemma replaced:
  assumes "plainGlob p"
  shows "replaceAll ''{{GLOBSTAR}}'' ''.*''
              (replaceAll ''*'' ''[^/]*''
                (replaceAll ''**'' ''{{GLOBSTAR}}''
                  (replaceAll ''.'' [CHR 0x5C, CHR ''.''] p))) =
         render ''.*'' ''[^/]*'' [CHR 0x5C, CHR ''.''] (globTokens p)"
proof -
  have ok: "tokensOk (globTokens p)" using assms by (rule globTokens_ok)
  have "replaceAll ''.'' [CHR 0x5C, CHR ''.''] p =
        replaceAll ''.'' [CHR 0x5C, CHR ''.''] (render ''**'' ''*'' ''.'' (globTokens p))"
    by (simp only: globTokens_render)
  then show ?thesis
    by (simp only: stage1[OF ok] stage2[OF ok] stage3[OF ok] stage4[OF ok])
qed

lemma parse_rendered:
  "tokensOk ts \<Longrightarrow>
   parseItems (render ''.*'' ''[^/]*'' [CHR 0x5C, CHR ''.''] ts) = Some (map itemOf ts)"
proof (induction ts)
  case Nil
  then show ?case by simp
next
  case (Cons t ts)
  then show ?case by (cases t) (auto simp: regexMeta_def)
qed

lemma rendered_no_group:
  "tokensOk ts \<Longrightarrow> \<not> prefix ''(^|.*/)?'' (render ''.*'' ''[^/]*'' [CHR 0x5C, CHR ''.''] ts)"
proof (cases ts)
  case Nil
  then show ?thesis by simp
next
  case (Cons t ts')
  assume "tokensOk ts"
  with Cons show ?thesis by (cases t) auto
qed

lemma compile_plain:
  assumes "plainGlob p"
  shows "compileRegex (regexSource p) =
         Some (Regex (\<not> startsWith p ''**'' \<and> \<not> startsWith p ''/'') (map itemOf (globTokens p)))"
proof -
  have ok: "tokensOk (globTokens p)" using assms by (rule globTokens_ok)
  let ?r = "render ''.*'' ''[^/]*'' [CHR 0x5C, CHR ''.''] (globTokens p)"
  show ?thesis
  proof (cases "\<not> startsWith p ''**'' \<and> \<not> startsWith p ''/''")
    case True
    then have "regexSource p = ''^'' @ (''(^|.*/)?'' @ ?r) @ ''$''"
      by (simp add: regexSource_def replaced[OF assms])
    then show ?thesis
      using True parse_rendered[OF ok]
      by (simp add: compileRegex_def butlast_append)
  next
    case False
    then have "regexSource p = ''^'' @ ?r @ ''$''"
      by (auto simp: regexSource_def replaced[OF assms] Let_def)
    then show ?thesis
      using False parse_rendered[OF ok] rendered_no_group[OF ok]
      by (simp add: compileRegex_def butlast_append)
  qed
qed

subsection \<open>The compiled expression and glob matching\<close>

lemma anyStar_Nil: "matchItems (AnyStar # items) [] = matchItems items []"
  by simp

lemma anyStar_Cons:
  "matchItems (AnyStar # items) (d # ds) =
     (matchItems items (d # ds) \<or> \<not> lineTerminator d \<and> matchItems (AnyStar # items) ds)"
  by (subst matchItems.simps) simp

lemma segStar_Nil: "matchItems (SegStar # items) [] = matchItems items []"
  by simp

lemma segStar_Cons:
  "matchItems (SegStar # items) (d # ds) =
     (matchItems items (d # ds) \<or> d \<noteq> CHR ''/'' \<and> matchItems (SegStar # items) ds)"
  by (subst matchItems.simps) simp

lemma lit_Cons: "matchItems (Lit c # items) (d # ds) = (d = c \<and> matchItems items ds)"
  by simp

lemma lit_Nil: "matchItems (Lit c # items) [] = False"
  by simp

lemma anyStar_unfold:
  "matchItems (AnyStar # items) s \<longleftrightarrow>
   (\<exists>w r. s = w @ r \<and> (\<forall>c \<in> set w. \<not> lineTerminator c) \<and> matchItems items r)"
proof (induction s)
  case Nil
  then show ?case by (simp only: anyStar_Nil) simp
next
  case (Cons d ds)
  show ?case
  proof
    assume "matchItems (AnyStar # items) (d # ds)"
    then consider "matchItems items (d # ds)"
      | "\<not> lineTerminator d" "matchItems (AnyStar # items) ds"
      unfolding anyStar_Cons by blast
    then show "\<exists>w r. d # ds = w @ r \<and> (\<forall>c \<in> set w. \<not> lineTerminator c) \<and> matchItems items r"
    proof cases
      case 1
      then have "d # ds = [] @ (d # ds) \<and> (\<forall>c \<in> set []. \<not> lineTerminator c) \<and> matchItems items (d # ds)"
        by simp
      then show ?thesis by blast
    next
      case 2
      with Cons.IH obtain w r where "ds = w @ r" "\<forall>c \<in> set w. \<not> lineTerminator c" "matchItems items r"
        by blast
      with 2 have "d # ds = (d # w) @ r \<and> (\<forall>c \<in> set (d # w). \<not> lineTerminator c) \<and> matchItems items r"
        by simp
      then show ?thesis by blast
    qed
  next
    assume "\<exists>w r. d # ds = w @ r \<and> (\<forall>c \<in> set w. \<not> lineTerminator c) \<and> matchItems items r"
    then obtain w r where wr: "d # ds = w @ r" "\<forall>c \<in> set w. \<not> lineTerminator c" "matchItems items r"
      by blast
    show "matchItems (AnyStar # items) (d # ds)"
    proof (cases w)
      case Nil
      with wr have "matchItems items (d # ds)" by simp
      then show ?thesis unfolding anyStar_Cons by blast
    next
      case (Cons e w')
      with wr have "ds = w' @ r" "\<not> lineTerminator d" "\<forall>c \<in> set w'. \<not> lineTerminator c"
        by simp_all
      with wr(3) Cons.IH have "matchItems (AnyStar # items) ds" by blast
      with \<open>\<not> lineTerminator d\<close> show ?thesis unfolding anyStar_Cons by blast
    qed
  qed
qed

lemma segStar_unfold:
  "matchItems (SegStar # items) s \<longleftrightarrow>
   (\<exists>w r. s = w @ r \<and> CHR ''/'' \<notin> set w \<and> matchItems items r)"
proof (induction s)
  case Nil
  then show ?case by (simp only: segStar_Nil) simp
next
  case (Cons d ds)
  show ?case
  proof
    assume "matchItems (SegStar # items) (d # ds)"
    then consider "matchItems items (d # ds)"
      | "d \<noteq> CHR ''/''" "matchItems (SegStar # items) ds"
      unfolding segStar_Cons by blast
    then show "\<exists>w r. d # ds = w @ r \<and> CHR ''/'' \<notin> set w \<and> matchItems items r"
    proof cases
      case 1
      then have "d # ds = [] @ (d # ds) \<and> CHR ''/'' \<notin> set [] \<and> matchItems items (d # ds)"
        by simp
      then show ?thesis by blast
    next
      case 2
      with Cons.IH obtain w r where "ds = w @ r" "CHR ''/'' \<notin> set w" "matchItems items r"
        by blast
      with 2 have "d # ds = (d # w) @ r \<and> CHR ''/'' \<notin> set (d # w) \<and> matchItems items r"
        by auto
      then show ?thesis by blast
    qed
  next
    assume "\<exists>w r. d # ds = w @ r \<and> CHR ''/'' \<notin> set w \<and> matchItems items r"
    then obtain w r where wr: "d # ds = w @ r" "CHR ''/'' \<notin> set w" "matchItems items r"
      by blast
    show "matchItems (SegStar # items) (d # ds)"
    proof (cases w)
      case Nil
      with wr have "matchItems items (d # ds)" by simp
      then show ?thesis unfolding segStar_Cons by blast
    next
      case (Cons e w')
      with wr have "ds = w' @ r" "d \<noteq> CHR ''/''" "CHR ''/'' \<notin> set w'"
        by auto
      with wr(3) Cons.IH have "matchItems (SegStar # items) ds" by blast
      with \<open>d \<noteq> CHR ''/''\<close> show ?thesis unfolding segStar_Cons by blast
    qed
  qed
qed

lemma items_sem:
  "matchItems (map itemOf ts) s \<longleftrightarrow> (\<exists>ws. list_all2 itemMatches ts ws \<and> concat ws = s)"
proof (induction ts arbitrary: s)
  case Nil
  then show ?case by auto
next
  case (Cons t ts)
  show ?case
  proof (cases t)
    case GlobStar
    have "matchItems (AnyStar # map itemOf ts) s \<longleftrightarrow>
          (\<exists>w r. s = w @ r \<and> itemMatches GlobStar w \<and>
                 (\<exists>ws. list_all2 itemMatches ts ws \<and> concat ws = r))"
      by (simp only: anyStar_unfold Cons.IH itemMatches.simps)
    also have "\<dots> \<longleftrightarrow> (\<exists>ws. list_all2 itemMatches (GlobStar # ts) ws \<and> concat ws = s)"
      by (simp only: list_all2_Cons1) (metis concat.simps(2))
    finally show ?thesis using GlobStar by (simp del: matchItems.simps)
  next
    case Star
    have "matchItems (SegStar # map itemOf ts) s \<longleftrightarrow>
          (\<exists>w r. s = w @ r \<and> itemMatches Star w \<and>
                 (\<exists>ws. list_all2 itemMatches ts ws \<and> concat ws = r))"
      by (simp only: segStar_unfold Cons.IH itemMatches.simps)
    also have "\<dots> \<longleftrightarrow> (\<exists>ws. list_all2 itemMatches (Star # ts) ws \<and> concat ws = s)"
      by (simp only: list_all2_Cons1) (metis concat.simps(2))
    finally show ?thesis using Star by (simp del: matchItems.simps)
  next
    case (Char c)
    have "matchItems (Lit c # map itemOf ts) s \<longleftrightarrow>
          (\<exists>w r. s = w @ r \<and> itemMatches (Char c) w \<and>
                 (\<exists>ws. list_all2 itemMatches ts ws \<and> concat ws = r))"
      by (cases s) (simp_all only: lit_Nil lit_Cons Cons.IH itemMatches.simps, auto)
    also have "\<dots> \<longleftrightarrow> (\<exists>ws. list_all2 itemMatches (Char c # ts) ws \<and> concat ws = s)"
      by (simp only: list_all2_Cons1) (metis concat.simps(2))
    finally show ?thesis using Char by (simp del: matchItems.simps)
  qed
qed

lemma itemMatches_token: "itemMatches t w \<Longrightarrow> tokenMatches t w"
  by (cases t) simp_all

lemma tokenMatches_item:
  "tokenMatches t w \<Longrightarrow> \<forall>c \<in> set w. \<not> lineTerminator c \<Longrightarrow> itemMatches t w"
  by (cases t) simp_all

lemma items_glob:
  assumes "\<forall>c \<in> set s. \<not> lineTerminator c"
  shows "matchItems (map itemOf ts) s \<longleftrightarrow> globMatches ts s"
proof
  assume "matchItems (map itemOf ts) s"
  then obtain ws where "list_all2 itemMatches ts ws" "concat ws = s"
    by (auto simp: items_sem)
  then have "list_all2 tokenMatches ts ws \<and> concat ws = s"
    by (auto elim!: list_all2_mono intro: itemMatches_token)
  then show "globMatches ts s" unfolding globMatches_def by blast
next
  assume "globMatches ts s"
  then obtain ws where ws: "list_all2 tokenMatches ts ws" "concat ws = s"
    unfolding globMatches_def by blast
  with assms have "\<forall>w \<in> set ws. \<forall>c \<in> set w. \<not> lineTerminator c" by auto
  with ws(1) have "list_all2 itemMatches ts ws"
    by (induction rule: list_all2_induct) (auto intro: tokenMatches_item)
  with ws(2) show "matchItems (map itemOf ts) s" by (auto simp: items_sem)
qed

lemma group_glob:
  assumes "\<forall>c \<in> set s. \<not> lineTerminator c"
  shows "(matchItems (map itemOf ts) s \<or> matchItems (AnyStar # Lit (CHR ''/'') # map itemOf ts) s) \<longleftrightarrow>
         (\<exists>pre rest. s = pre @ rest \<and> (pre = [] \<or> last pre = CHR ''/'') \<and> globMatches ts rest)"
    (is "?L \<longleftrightarrow> ?R")
proof
  assume ?L
  then consider "matchItems (map itemOf ts) s"
    | "matchItems (AnyStar # Lit (CHR ''/'') # map itemOf ts) s" by blast
  then show ?R
  proof cases
    case 1
    with assms have "s = [] @ s \<and> globMatches ts s" by (simp add: items_glob)
    then show ?thesis by blast
  next
    case 2
    then obtain w r where wr: "s = w @ r" "matchItems (Lit (CHR ''/'') # map itemOf ts) r"
      unfolding anyStar_unfold by blast
    have "\<exists>r'. r = CHR ''/'' # r' \<and> matchItems (map itemOf ts) r'"
    proof (cases r)
      case Nil
      with wr(2) have False by (simp only: lit_Nil)
      then show ?thesis ..
    next
      case (Cons a l)
      with wr(2) have "a = CHR ''/'' \<and> matchItems (map itemOf ts) l"
        by (simp only: lit_Cons)
      with Cons show ?thesis by blast
    qed
    then obtain r' where r': "r = CHR ''/'' # r'" "matchItems (map itemOf ts) r'"
      by blast
    from assms have "\<forall>c \<in> set r'. \<not> lineTerminator c"
      unfolding wr(1) r'(1) by simp
    with r' have "globMatches ts r'" by (simp add: items_glob)
    with wr r' have "s = (w @ [CHR ''/'']) @ r' \<and> last (w @ [CHR ''/'']) = CHR ''/'' \<and> globMatches ts r'"
      by simp
    then show ?thesis by blast
  qed
next
  assume ?R
  then obtain pre rest where pr: "s = pre @ rest" "pre = [] \<or> last pre = CHR ''/''"
    "globMatches ts rest" by blast
  from assms have nl: "\<forall>c \<in> set rest. \<not> lineTerminator c"
    unfolding pr(1) by simp
  with pr have m: "matchItems (map itemOf ts) rest" by (simp add: items_glob)
  show ?L
  proof (cases "pre = []")
    case True
    with pr m show ?thesis by simp
  next
    case False
    then have "butlast pre @ [last pre] = pre" by simp
    with False pr(2) obtain b where pre: "pre = b @ [CHR ''/'']" by metis
    from pr(1) assms have "\<forall>c \<in> set pre. \<not> lineTerminator c" by simp
    then have b: "\<forall>c \<in> set b. \<not> lineTerminator c"
      unfolding pre by simp
    have sb: "s = b @ (CHR ''/'' # rest)"
      unfolding pr(1) pre by simp
    have "matchItems (Lit (CHR ''/'') # map itemOf ts) (CHR ''/'' # rest)"
      using m by (simp only: lit_Cons)
    with b sb have "matchItems (AnyStar # Lit (CHR ''/'') # map itemOf ts) s"
      unfolding anyStar_unfold by blast
    then show ?thesis by blast
  qed
qed

lemma matchPattern_glob:
  assumes "plainGlob p" and "\<forall>c \<in> set s. \<not> lineTerminator c"
  shows "matchPattern s p = Some (globAccepts p s)"
proof (cases "startsWith p ''**'' \<or> startsWith p ''/''")
  case True
  then show ?thesis
    using items_glob[OF assms(2)]
    by (auto simp add: matchPattern_def compile_plain[OF assms(1)] globAccepts_def
             simp del: matchItems.simps)
next
  case False
  then show ?thesis
    using group_glob[OF assms(2), of "globTokens p"]
    by (simp add: matchPattern_def compile_plain[OF assms(1)] globAccepts_def
             del: matchItems.simps)
qed

lemma somePattern_glob:
  assumes "\<forall>p \<in> set ps. plainGlob p" and "\<forall>c \<in> set s. \<not> lineTerminator c"
  shows "somePattern s ps = Some (\<exists>p \<in> set ps. globAccepts p s)"
  using assms(1) by (induction ps) (simp_all add: matchPattern_glob[OF _ assms(2)])

lemma shouldIgnoreFile_glob:
  assumes "\<forall>p \<in> set (configPatterns config). plainGlob p"
    and "\<forall>c \<in> set s. \<not> lineTerminator c"
  shows "shouldIgnoreFile s config = Some (globDropped config s)"
proof -
  let ?ign = "case ignore config of None \<Rightarrow> [] | Some ps \<Rightarrow> ps"
  let ?inc = "case include_only config of None \<Rightarrow> [] | Some ps \<Rightarrow> ps"
  have "\<forall>p \<in> set ?ign. plainGlob p" "\<forall>p \<in> set ?inc. plainGlob p"
    using assms(1) by (simp_all add: configPatterns_def)
  then have i: "somePattern s ?ign = Some (\<exists>p \<in> set ?ign. globAccepts p s)"
    and j: "somePattern s ?inc = Some (\<exists>p \<in> set ?inc. globAccepts p s)"
    using assms(2) by (simp_all add: somePattern_glob)
  show ?thesis
  proof (cases "include_only config")
    case None
    with i show ?thesis by (simp add: shouldIgnoreFile_def globDropped_def)
  next
    case (Some inc)
    with i j show ?thesis
      by (cases "inc = []") (auto simp: shouldIgnoreFile_def globDropped_def)
  qed
qed

text \<open>
  Where the filter agrees with the glob reading: for patterns with no metacharacter of
  the regular-expression syntax other than the dot and the star, and paths without line
  terminators, the filter keeps, in order, the files that the drop policy does not
  drop. The scenario of the specification is an instance.
\<close>

lemma filterFiles_glob:
  assumes "\<forall>p \<in> set (configPatterns config). plainGlob p"
    and "\<forall>f \<in> set fs. \<forall>c \<in> set (path f). \<not> lineTerminator c"
  shows "filterFiles fs config = Some (filter (\<lambda>f. \<not> globDropped config (path f)) fs)"
  using assms(2)
  by (induction fs) (simp_all add: shouldIgnoreFile_glob[OF assms(1)])

subsection \<open>Concrete configurations\<close>

lemma globMatches_globstar: "globMatches [GlobStar] s"
  unfolding globMatches_def by (rule exI[of _ "[s]"]) simp

lemma globTokens_literal: "CHR ''*'' \<notin> set p \<Longrightarrow> globTokens p = map Char p"
  by (induction p rule: globTokens.induct) auto

lemma globMatches_literal: "globMatches (map Char p) p"
proof -
  have "list_all2 tokenMatches (map Char p) (map (\<lambda>c. [c]) p)"
    by (simp add: list_all2_map1 list_all2_map2 list_all2_same)
  moreover have "concat (map (\<lambda>c. [c]) p) = p"
    by (induction p) simp_all
  ultimately show ?thesis unfolding globMatches_def by blast
qed

lemma globAccepts_literal: "CHR ''*'' \<notin> set p \<Longrightarrow> globAccepts p p"
proof -
  assume "CHR ''*'' \<notin> set p"
  then have "globMatches (globTokens p) p"
    by (simp add: globTokens_literal globMatches_literal)
  then have "p = [] @ p \<and> ([] = [] \<or> last [] = CHR ''/'') \<and> globMatches (globTokens p) p"
    by simp
  then have "\<exists>pre rest. p = pre @ rest \<and> (pre = [] \<or> last pre = CHR ''/'') \<and>
               globMatches (globTokens p) rest"
    by blast
  with \<open>globMatches (globTokens p) p\<close> show ?thesis
    unfolding globAccepts_def by simp
qed

lemma filterFiles_glob_scenario:
  "(\<forall>p \<in> set (configPatterns
       \<lparr>ignore = Some [''*.min.js'', ''**/node_modules/**'', ''package-lock.json''],
        include_only = None\<rparr>). plainGlob p) \<and>
   (\<forall>f \<in> set [\<lparr>path = ''src/app.ts'', additions = 10, deletions = 5, hunks = []\<rparr>,
               \<lparr>path = ''dist/bundle.min.js'', additions = 100, deletions = 0, hunks = []\<rparr>,
               \<lparr>path = ''package-lock.json'', additions = 500, deletions = 200, hunks = []\<rparr>].
      \<forall>c \<in> set (path f). \<not> lineTerminator c) \<and>
   filterFiles
     [\<lparr>path = ''src/app.ts'', additions = 10, deletions = 5, hunks = []\<rparr>,
      \<lparr>path = ''dist/bundle.min.js'', additions = 100, deletions = 0, hunks = []\<rparr>,
      \<lparr>path = ''package-lock.json'', additions = 500, deletions = 200, hunks = []\<rparr>]
     \<lparr>ignore = Some [''*.min.js'', ''**/node_modules/**'', ''package-lock.json''],
      include_only = None\<rparr> =
   Some (filter (\<lambda>f. \<not> globDropped
       \<lparr>ignore = Some [''*.min.js'', ''**/node_modules/**'', ''package-lock.json''],
        include_only = None\<rparr> (path f))
     [\<lparr>path = ''src/app.ts'', additions = 10, deletions = 5, hunks = []\<rparr>,
      \<lparr>path = ''dist/bundle.min.js'', additions = 100, deletions = 0, hunks = []\<rparr>,
      \<lparr>path = ''package-lock.json'', additions = 500, deletions = 200, hunks = []\<rparr>]) \<and>
   filterFiles
     [\<lparr>path = ''src/app.ts'', additions = 10, deletions = 5, hunks = []\<rparr>,
      \<lparr>path = ''dist/bundle.min.js'', additions = 100, deletions = 0, hunks = []\<rparr>,
      \<lparr>path = ''package-lock.json'', additions = 500, deletions = 200, hunks = []\<rparr>]
     \<lparr>ignore = Some [''*.min.js'', ''**/node_modules/**'', ''package-lock.json''],
      include_only = None\<rparr> =
   Some [\<lparr>path = ''src/app.ts'', additions = 10, deletions = 5, hunks = []\<rparr>]"
proof -
  let ?cfg = "\<lparr>ignore = Some [''*.min.js'', ''**/node_modules/**'', ''package-lock.json''],
               include_only = None\<rparr>"
  let ?fs = "[\<lparr>path = ''src/app.ts'', additions = 10, deletions = 5, hunks = []\<rparr>,
      \<lparr>path = ''dist/bundle.min.js'', additions = 100, deletions = 0, hunks = []\<rparr>,
      \<lparr>path = ''package-lock.json'', additions = 500, deletions = 200, hunks = []\<rparr>]"
  have h1: "\<forall>p \<in> set (configPatterns ?cfg). plainGlob p"
    by code_simp
  have h2: "\<forall>f \<in> set ?fs. \<forall>c \<in> set (path f). \<not> lineTerminator c"
    by code_simp
  have n: "filterFiles ?fs ?cfg =
           Some [\<lparr>path = ''src/app.ts'', additions = 10, deletions = 5, hunks = []\<rparr>]"
    by code_simp
  from filterFiles_glob[OF h1 h2] h1 h2 n show ?thesis by blast
qed

text \<open>
  Outside those patterns and paths the filter leaves the glob reading: a dollar sign in
  a pattern is compiled as the end-of-input assertion, so the pattern does not match
  the path that spells it, and \<open>.*\<close> does not run over a line feed in a path.
\<close>

lemma filterFiles_glob_divergence:
  "filterFiles [\<lparr>path = ''Foo$Bar.class'', additions = 1, deletions = 0, hunks = []\<rparr>]
     \<lparr>ignore = Some [''Foo$Bar.class''], include_only = None\<rparr> \<noteq>
   Some (filter (\<lambda>f. \<not> globDropped \<lparr>ignore = Some [''Foo$Bar.class''], include_only = None\<rparr> (path f))
     [\<lparr>path = ''Foo$Bar.class'', additions = 1, deletions = 0, hunks = []\<rparr>]) \<and>
   filterFiles [\<lparr>path = [CHR ''a'', CHR 0x0A, CHR ''b''], additions = 1, deletions = 0, hunks = []\<rparr>]
     \<lparr>ignore = Some [''**''], include_only = None\<rparr> \<noteq>
   Some (filter (\<lambda>f. \<not> globDropped \<lparr>ignore = Some [''**''], include_only = None\<rparr> (path f))
     [\<lparr>path = [CHR ''a'', CHR 0x0A, CHR ''b''], additions = 1, deletions = 0, hunks = []\<rparr>])"
proof -
  have e1: "filterFiles [\<lparr>path = ''Foo$Bar.class'', additions = 1, deletions = 0, hunks = []\<rparr>]
     \<lparr>ignore = Some [''Foo$Bar.class''], include_only = None\<rparr> =
     Some [\<lparr>path = ''Foo$Bar.class'', additions = 1, deletions = 0, hunks = []\<rparr>]"
    by code_simp
  have "globAccepts ''Foo$Bar.class'' ''Foo$Bar.class''"
    by (rule globAccepts_literal) simp
  then have d1: "globDropped \<lparr>ignore = Some [''Foo$Bar.class''], include_only = None\<rparr> ''Foo$Bar.class''"
    by (simp add: globDropped_def)
  have e2: "filterFiles [\<lparr>path = [CHR ''a'', CHR 0x0A, CHR ''b''], additions = 1, deletions = 0, hunks = []\<rparr>]
     \<lparr>ignore = Some [''**''], include_only = None\<rparr> =
     Some [\<lparr>path = [CHR ''a'', CHR 0x0A, CHR ''b''], additions = 1, deletions = 0, hunks = []\<rparr>]"
    by code_simp
  have "globAccepts ''**'' [CHR ''a'', CHR 0x0A, CHR ''b'']"
    using globMatches_globstar by (simp add: globAccepts_def startsWith_def)
  then have d2: "globDropped \<lparr>ignore = Some [''**''], include_only = None\<rparr> [CHR ''a'', CHR 0x0A, CHR ''b'']"
    by (simp add: globDropped_def)
  show ?thesis
    unfolding e1 e2 using d1 d2 by simp
qed

text \<open>
  C7. An ignore pattern that spells a file name with a dollar sign, and the file of that
  name: the filter keeps the file. The pattern reaches \<open>new RegExp\<close> with the dollar
  sign unescaped, where it asserts the end of the input in the middle of the
  expression, so the expression matches no path; under glob matching the pattern
  matches the path and the file is dropped.
\<close>

theorem filterFiles_dollar_pattern:
  "filterFiles [\<lparr>path = ''Foo$Bar.class'', additions = 1, deletions = 0, hunks = []\<rparr>]
     \<lparr>ignore = Some [''Foo$Bar.class''], include_only = None\<rparr> =
   Some [\<lparr>path = ''Foo$Bar.class'', additions = 1, deletions = 0, hunks = []\<rparr>]"
  by code_simp

end
